theory Spec2Isabelle
  imports Complex_Main
begin

section \<open>Python values\<close>

text \<open>
  The analyzer (\<^verbatim>\<open>main.py\<close>) computes with Python \<^verbatim>\<open>float\<close>s, that is IEEE 754 binary64
  numbers, with Python \<^verbatim>\<open>int\<close>s and with \<^verbatim>\<open>str\<close>s. A float is a finite real, an infinity or
  not-a-number; the two signed zeros are identified, which only loses the sign that
  \<^verbatim>\<open>format\<close> prints for \<^verbatim>\<open>-0.0\<close>. A string is the list of its Unicode code points.
  An exception is a value of \<open>pyerror\<close>, and a computation that may raise returns
  \<open>pyerror + 'a\<close>.
\<close>

datatype pyfloat = Fin real | PInf | NInf | NaN

datatype pyerror = OverflowError | ValueError | ZeroDivisionError

type_synonym 'a result = "pyerror + 'a"

type_synonym pystr = "nat list"

definition pybind :: "'a result \<Rightarrow> ('a \<Rightarrow> 'b result) \<Rightarrow> 'b result" where
  "pybind m f = (case m of Inl e \<Rightarrow> Inl e | Inr v \<Rightarrow> f v)"

text \<open>An ASCII literal as a Python string.\<close>

definition ascii :: "string \<Rightarrow> pystr" where
  "ascii s = map of_char s"

subsection \<open>Rounding to binary64\<close>

text \<open>
  Round to nearest, ties to even. A binary64 number is an integer multiple of
  \<open>2 ^ ulp_exponent\<close>, where the exponent of the unit in the last place is 52 below the
  binade of the number and never below \<open>-1074\<close> (subnormal numbers). A result of
  magnitude \<open>2 ^ 1024\<close> or more is an infinity.
\<close>

definition round_half_even :: "real \<Rightarrow> int" where
  "round_half_even t =
     (let n = \<lfloor>t\<rfloor>; d = t - of_int n
      in if d < 1 / 2 then n else if 1 / 2 < d then n + 1
         else if even n then n else n + 1)"

definition ulp_exponent :: "real \<Rightarrow> int" where
  "ulp_exponent x = max \<lfloor>log 2 \<bar>x\<bar>\<rfloor> (- 1022) - 52"

definition fl_real :: "real \<Rightarrow> real" where
  "fl_real x =
     of_int (round_half_even (x / 2 powr of_int (ulp_exponent x)))
       * 2 powr of_int (ulp_exponent x)"

definition fl :: "real \<Rightarrow> pyfloat" where
  "fl x =
     (let y = fl_real x
      in if 2 ^ 1024 \<le> y then PInf else if y \<le> - (2 ^ 1024) then NInf else Fin y)"

text \<open>
  The least real that rounds to an infinity: halfway between the largest float and
  \<open>2 ^ 1024\<close>.
\<close>

definition overflow_threshold :: real where
  "overflow_threshold = 2 ^ 1024 - 2 ^ 970"

subsection \<open>Float operators\<close>

text \<open>Comparisons: every comparison with not-a-number is false.\<close>

fun fle :: "pyfloat \<Rightarrow> pyfloat \<Rightarrow> bool" where
  "fle NaN _ = False"
| "fle _ NaN = False"
| "fle NInf _ = True"
| "fle _ PInf = True"
| "fle (Fin a) (Fin b) = (a \<le> b)"
| "fle _ _ = False"

fun flt :: "pyfloat \<Rightarrow> pyfloat \<Rightarrow> bool" where
  "flt NaN _ = False"
| "flt _ NaN = False"
| "flt (Fin a) (Fin b) = (a < b)"
| "flt NInf NInf = False"
| "flt NInf _ = True"
| "flt PInf _ = False"
| "flt _ PInf = True"
| "flt _ _ = False"

definition feq :: "pyfloat \<Rightarrow> pyfloat \<Rightarrow> bool" where
  "feq x y = (x \<noteq> NaN \<and> x = y)"

definition fne :: "pyfloat \<Rightarrow> pyfloat \<Rightarrow> bool" where
  "fne x y = (\<not> feq x y)"

text \<open>The sign of a float: \<open>1\<close>, \<open>0\<close> or \<open>-1\<close>; \<open>0\<close> for not-a-number.\<close>

fun fsign :: "pyfloat \<Rightarrow> int" where
  "fsign (Fin a) = (if 0 < a then 1 else if a < 0 then - 1 else 0)"
| "fsign PInf = 1"
| "fsign NInf = - 1"
| "fsign NaN = 0"

text \<open>\<^verbatim>\<open>x + y\<close> and \<^verbatim>\<open>x * y\<close> never raise: they overflow to an infinity.\<close>

fun fadd :: "pyfloat \<Rightarrow> pyfloat \<Rightarrow> pyfloat" where
  "fadd (Fin a) (Fin b) = fl (a + b)"
| "fadd NaN _ = NaN"
| "fadd _ NaN = NaN"
| "fadd PInf NInf = NaN"
| "fadd NInf PInf = NaN"
| "fadd PInf _ = PInf"
| "fadd _ PInf = PInf"
| "fadd NInf _ = NInf"
| "fadd _ NInf = NInf"

fun fmul :: "pyfloat \<Rightarrow> pyfloat \<Rightarrow> pyfloat" where
  "fmul (Fin a) (Fin b) = fl (a * b)"
| "fmul x y =
     (if x = NaN \<or> y = NaN \<or> fsign x * fsign y = 0 then NaN
      else if 0 < fsign x * fsign y then PInf else NInf)"

text \<open>
  \<^verbatim>\<open>x / y\<close> raises \<^verbatim>\<open>ZeroDivisionError\<close> when \<^verbatim>\<open>y\<close> is zero, whatever \<^verbatim>\<open>x\<close> is, and
  otherwise is the IEEE quotient, which overflows to an infinity.
\<close>

fun fdiv :: "pyfloat \<Rightarrow> pyfloat \<Rightarrow> pyfloat result" where
  "fdiv x (Fin b) =
     (if b = 0 then Inl ZeroDivisionError
      else case x of
        Fin a \<Rightarrow> Inr (fl (a / b))
      | NaN \<Rightarrow> Inr NaN
      | PInf \<Rightarrow> Inr (if 0 < b then PInf else NInf)
      | NInf \<Rightarrow> Inr (if 0 < b then NInf else PInf))"
| "fdiv NaN _ = Inr NaN"
| "fdiv _ NaN = Inr NaN"
| "fdiv (Fin a) _ = Inr (Fin 0)"
| "fdiv _ _ = Inr NaN"

text \<open>
  \<^verbatim>\<open>2 ** x\<close> for a float \<^verbatim>\<open>x\<close> (\<^verbatim>\<open>float.__rpow__\<close>): \<open>1.0\<close> for a zero exponent, the
  exponent itself when it is not-a-number, \<open>inf\<close> and \<open>0.0\<close> at the infinite exponents,
  and otherwise the C library's \<^verbatim>\<open>pow\<close>, taken as correctly rounded; an overflowing
  result raises \<^verbatim>\<open>OverflowError\<close>, an underflowing one is returned.
\<close>

fun py_pow2 :: "pyfloat \<Rightarrow> pyfloat result" where
  "py_pow2 NaN = Inr NaN"
| "py_pow2 PInf = Inr PInf"
| "py_pow2 NInf = Inr (Fin 0)"
| "py_pow2 (Fin x) =
     (if x = 0 then Inr (Fin 1)
      else if fl (2 powr x) = PInf then Inl OverflowError
      else Inr (fl (2 powr x)))"

text \<open>
  An \<^verbatim>\<open>int\<close> operand of a float operator is converted first, which raises
  \<^verbatim>\<open>OverflowError\<close> when the integer is beyond the floats.
\<close>

definition float_of_int :: "int \<Rightarrow> pyfloat result" where
  "float_of_int n =
     (case fl (of_int n) of
        Fin y \<Rightarrow> Inr (Fin y)
      | _ \<Rightarrow> Inl OverflowError)"

text \<open>
  \<^verbatim>\<open>math.log2\<close> of an \<^verbatim>\<open>int\<close> and \<^verbatim>\<open>math.log10\<close> of a float, taken as correctly rounded:
  a \<^verbatim>\<open>ValueError\<close> (math domain error) outside the positive numbers. \<^verbatim>\<open>math.log2\<close> takes
  the logarithm of the integer as a float, and has a path of its own, which does not
  raise, for an integer beyond the floats.
\<close>

definition math_log2 :: "int \<Rightarrow> pyfloat result" where
  "math_log2 n =
     (if n \<le> 0 then Inl ValueError
      else case fl (of_int n) of
        Fin a \<Rightarrow> Inr (fl (log 2 a))
      | _ \<Rightarrow> Inr (fl (log 2 (of_int n))))"

fun math_log10 :: "pyfloat \<Rightarrow> pyfloat result" where
  "math_log10 NaN = Inr NaN"
| "math_log10 PInf = Inr PInf"
| "math_log10 NInf = Inl ValueError"
| "math_log10 (Fin x) = (if 0 < x then Inr (fl (log 10 x)) else Inl ValueError)"

text \<open>\<^verbatim>\<open>int(x)\<close> truncates towards zero and raises on the non-finite floats.\<close>

fun py_int :: "pyfloat \<Rightarrow> int result" where
  "py_int NaN = Inl ValueError"
| "py_int PInf = Inl OverflowError"
| "py_int NInf = Inl OverflowError"
| "py_int (Fin x) = Inr (if 0 \<le> x then \<lfloor>x\<rfloor> else \<lceil>x\<rceil>)"

text \<open>
  \<^verbatim>\<open>round(x, 2)\<close>: the float nearest to the decimal with two places that is nearest to
  \<^verbatim>\<open>x\<close>, ties to even.
\<close>

fun py_round2 :: "pyfloat \<Rightarrow> pyfloat" where
  "py_round2 (Fin x) = fl (of_int (round_half_even (x * 100)) / 100)"
| "py_round2 x = x"

subsection \<open>Fixed-point formatting\<close>

text \<open>
  \<^verbatim>\<open>f"{x:.df}"\<close>: the decimal with \<open>d\<close> places nearest to \<^verbatim>\<open>x\<close>, ties to even, with a
  minus sign for a negative \<^verbatim>\<open>x\<close>; \<^verbatim>\<open>nan\<close>, \<^verbatim>\<open>inf\<close> and \<^verbatim>\<open>-inf\<close> for the others.
\<close>

fun decimal :: "nat \<Rightarrow> pystr" where
  "decimal n = (if n < 10 then [48 + n] else decimal (n div 10) @ [48 + n mod 10])"

declare decimal.simps [simp del]

definition zero_pad :: "nat \<Rightarrow> pystr \<Rightarrow> pystr" where
  "zero_pad d s = replicate (d - length s) 48 @ s"

fun format_f :: "nat \<Rightarrow> pyfloat \<Rightarrow> pystr" where
  "format_f d NaN = ascii ''nan''"
| "format_f d PInf = ascii ''inf''"
| "format_f d NInf = ascii ''-inf''"
| "format_f d (Fin x) =
     (let n = nat (round_half_even (\<bar>x\<bar> * 10 ^ d))
      in (if x < 0 then ascii ''-'' else [])
         @ decimal (n div 10 ^ d)
         @ (if d = 0 then [] else ascii ''.'' @ zero_pad d (decimal (n mod 10 ^ d))))"

subsection \<open>Character classes\<close>

text \<open>
  \<^verbatim>\<open>str.islower\<close>, \<^verbatim>\<open>str.isupper\<close> and \<^verbatim>\<open>str.isdigit\<close> of one character read the Unicode
  properties Lowercase, Uppercase and Numeric_Type (Digit or Decimal) of its code
  point. The tables are written out for U+0000 to U+00FF (ASCII and Latin-1); above,
  they are the interpreter's Unicode database, a parameter here.
\<close>

record unicode_db =
  db_lowercase :: "nat \<Rightarrow> bool"
  db_uppercase :: "nat \<Rightarrow> bool"
  db_digit :: "nat \<Rightarrow> bool"

definition islower :: "unicode_db \<Rightarrow> nat \<Rightarrow> bool" where
  "islower db c =
     (if c < 256
      then (97 \<le> c \<and> c \<le> 122) \<or> c = 170 \<or> c = 181 \<or> c = 186
           \<or> (223 \<le> c \<and> c \<le> 246) \<or> (248 \<le> c \<and> c \<le> 255)
      else db_lowercase db c)"

definition isupper :: "unicode_db \<Rightarrow> nat \<Rightarrow> bool" where
  "isupper db c =
     (if c < 256
      then (65 \<le> c \<and> c \<le> 90) \<or> (192 \<le> c \<and> c \<le> 214) \<or> (216 \<le> c \<and> c \<le> 222)
      else db_uppercase db c)"

definition isdigit :: "unicode_db \<Rightarrow> nat \<Rightarrow> bool" where
  "isdigit db c =
     (if c < 256
      then (48 \<le> c \<and> c \<le> 57) \<or> c = 178 \<or> c = 179 \<or> c = 185
      else db_digit db c)"

text \<open>\<^verbatim>\<open>string.punctuation\<close>, 32 ASCII characters.\<close>

definition punctuation :: pystr where
  "punctuation = ascii ''!\"#$%&'' @ [39] @ ascii ''()*+,-./:;<=>?@['' @ [92] @ ascii '']^_`{|}~''"

text \<open>A database with no cased character and no digit above U+00FF.\<close>

definition latin1_db :: unicode_db where
  "latin1_db =
     \<lparr>db_lowercase = (\<lambda>c. False), db_uppercase = (\<lambda>c. False), db_digit = (\<lambda>c. False)\<rparr>"

section \<open>The analyzer\<close>

datatype char_class = lower | upper | digits | symbols

fun POOL_SIZES :: "char_class \<Rightarrow> int" where
  "POOL_SIZES lower = 26"
| "POOL_SIZES upper = 26"
| "POOL_SIZES digits = 10"
| "POOL_SIZES symbols = 32"

text \<open>
  The value of \<^verbatim>\<open>pool\<close> after the four \<^verbatim>\<open>if any(...)\<close> statements, which
  \<^verbatim>\<open>estimate_entropy\<close> and the length sweep both run on the password.
\<close>

definition char_pool :: "unicode_db \<Rightarrow> pystr \<Rightarrow> int" where
  "char_pool db password =
     (let pool = 0;
          pool = (if list_ex (islower db) password then pool + POOL_SIZES lower else pool);
          pool = (if list_ex (isupper db) password then pool + POOL_SIZES upper else pool);
          pool = (if list_ex (isdigit db) password then pool + POOL_SIZES digits else pool);
          pool = (if list_ex (\<lambda>c. c \<in> set punctuation) password
                  then pool + POOL_SIZES symbols else pool)
      in pool)"

definition estimate_entropy :: "unicode_db \<Rightarrow> pystr \<Rightarrow> pyfloat result" where
  "estimate_entropy db password =
     (let pool = char_pool db password
      in if pool = 0 then Inr (Fin 0)
         else pybind (math_log2 pool) (\<lambda>lg.
              pybind (float_of_int (int (length password))) (\<lambda>n.
              Inr (py_round2 (fmul lg n)))))"

definition human_time :: "pyfloat \<Rightarrow> pystr result" where
  "human_time seconds =
     (if fne seconds seconds \<or> feq seconds PInf then Inr [8734]
      else if flt seconds (Fin 1) then Inr (format_f 3 seconds @ ascii '' s'')
      else if flt seconds (Fin 60) then Inr (format_f 2 seconds @ ascii '' s'')
      else if flt seconds (Fin 3600)
        then pybind (fdiv seconds (Fin 60)) (\<lambda>q. Inr (format_f 2 q @ ascii '' min''))
      else if flt seconds (Fin 86400)
        then pybind (fdiv seconds (Fin 3600)) (\<lambda>q. Inr (format_f 2 q @ ascii '' hr''))
      else if flt seconds (Fin 31536000)
        then pybind (fdiv seconds (Fin 86400)) (\<lambda>q. Inr (format_f 2 q @ ascii '' days''))
      else pybind (fdiv seconds (Fin 31536000)) (\<lambda>q. Inr (format_f 2 q @ ascii '' years'')))"

definition classical_time_seconds :: "pyfloat \<Rightarrow> pyfloat \<Rightarrow> bool \<Rightarrow> pyfloat result" where
  "classical_time_seconds entropy_bits ops_per_sec average =
     (if fle ops_per_sec (Fin 0) then Inr PInf
      else pybind (py_pow2 entropy_bits) (\<lambda>p.
           pybind (fdiv p ops_per_sec) (\<lambda>full.
           if average then fdiv full (Fin 2) else Inr full)))"

definition grover_time_seconds :: "pyfloat \<Rightarrow> pyfloat \<Rightarrow> bool \<Rightarrow> pyfloat result" where
  "grover_time_seconds entropy_bits quantum_ops_per_sec average =
     (if fle quantum_ops_per_sec (Fin 0) then Inr PInf
      else pybind (fdiv entropy_bits (Fin 2)) (\<lambda>half.
           pybind (py_pow2 half) (\<lambda>p.
           pybind (fdiv p quantum_ops_per_sec) (\<lambda>full.
           if average then fdiv full (Fin 2) else Inr full))))"

definition time_to_percent_years :: "pyfloat \<Rightarrow> int result" where
  "time_to_percent_years seconds =
     (if fle seconds (Fin 1) then Inr 0
      else pybind (fdiv seconds (Fin (3600 * 24 * 365))) (\<lambda>years.
           if fle (Fin 100) years then Inr 100
           else pybind (math_log10 (fadd years (Fin 1))) (\<lambda>lg.
                pybind (fdiv lg (Fin 2)) (\<lambda>h.
                pybind (py_int (fmul h (Fin 100))) (\<lambda>pct.
                Inr (max 0 (min 100 pct)))))))"

text \<open>
  The length sweep of the chart (module level): the pool of the analyzed password, the
  lowercase pool when that is zero, and one row per length from 4 to 32. An exception in
  a row ends the sweep.
\<close>

type_synonym sweep_row = "int \<times> pyfloat \<times> pyfloat \<times> pyfloat"

definition sweep_pool :: "unicode_db \<Rightarrow> pystr \<Rightarrow> int" where
  "sweep_pool db password =
     (let pool = char_pool db password
      in if pool = 0 then POOL_SIZES lower else pool)"

definition sweep_row :: "int \<Rightarrow> pyfloat \<Rightarrow> pyfloat \<Rightarrow> int \<Rightarrow> sweep_row result" where
  "sweep_row pool c_ops q_ops l =
     pybind (math_log2 pool) (\<lambda>lg.
     pybind (float_of_int l) (\<lambda>lf.
     let e = fmul lg lf
     in pybind (classical_time_seconds e c_ops True) (\<lambda>c_t.
        pybind (grover_time_seconds e q_ops True) (\<lambda>q_t.
        pybind (math_log10 (fadd c_t (Fin 1))) (\<lambda>lc.
        pybind (math_log10 (fadd q_t (Fin 1))) (\<lambda>lq.
        Inr (l, e, lc, lq)))))))"

fun sweep_loop :: "int \<Rightarrow> pyfloat \<Rightarrow> pyfloat \<Rightarrow> int list \<Rightarrow> sweep_row list \<Rightarrow> sweep_row list result" where
  "sweep_loop pool c_ops q_ops [] data = Inr data"
| "sweep_loop pool c_ops q_ops (l # ls) data =
     pybind (sweep_row pool c_ops q_ops l) (\<lambda>row.
       sweep_loop pool c_ops q_ops ls (data @ [row]))"

definition lengths :: "int list" where
  "lengths = map int [4..<33]"

definition sweep :: "unicode_db \<Rightarrow> pystr \<Rightarrow> pyfloat \<Rightarrow> pyfloat \<Rightarrow> sweep_row list result" where
  "sweep db password c_ops q_ops =
     sweep_loop (sweep_pool db password) c_ops q_ops lengths []"

section \<open>Properties of the rounding\<close>

subsection \<open>Rounding to an integer\<close>

lemma rhe_of_int: "round_half_even (of_int n) = n"
  by (simp add: round_half_even_def)

lemma rhe_le: "t \<le> of_int n \<Longrightarrow> round_half_even t \<le> n"
  unfolding round_half_even_def Let_def
  by (auto simp: not_less) linarith+

lemma rhe_ge: "of_int n \<le> t \<Longrightarrow> n \<le> round_half_even t"
  unfolding round_half_even_def Let_def
  by (auto simp: not_less) linarith+

lemma rhe_err: "\<bar>of_int (round_half_even t) - t\<bar> \<le> 1 / 2"
  unfolding round_half_even_def Let_def
  by (auto simp: not_less)

lemma rhe_floor: "\<lfloor>t\<rfloor> \<le> round_half_even t \<and> round_half_even t \<le> \<lfloor>t\<rfloor> + 1"
  unfolding round_half_even_def Let_def by auto

lemma rhe_mono: "s \<le> t \<Longrightarrow> round_half_even s \<le> round_half_even t"
proof (cases "\<lfloor>s\<rfloor> = \<lfloor>t\<rfloor>")
  case True
  assume "s \<le> t"
  with True show ?thesis
    unfolding round_half_even_def Let_def by auto
next
  case False
  assume "s \<le> t"
  then have "\<lfloor>s\<rfloor> \<le> \<lfloor>t\<rfloor>" by (rule floor_mono)
  with False have "\<lfloor>s\<rfloor> + 1 \<le> \<lfloor>t\<rfloor>" by simp
  with rhe_floor [of s] rhe_floor [of t] show ?thesis by linarith
qed

lemma rhe_lt_half: "t < of_int n - 1 / 2 \<Longrightarrow> round_half_even t < n"
  unfolding round_half_even_def Let_def
  by (auto simp: not_less) linarith+

lemma rhe_ge_half: "of_int n - 1 / 2 \<le> t \<Longrightarrow> even n \<Longrightarrow> n \<le> round_half_even t"
proof -
  assume a: "of_int n - 1 / 2 \<le> t" and e: "even n"
  have "n - 1 \<le> \<lfloor>t\<rfloor>" using a by linarith
  then consider "n \<le> \<lfloor>t\<rfloor>" | "\<lfloor>t\<rfloor> = n - 1" by linarith
  then show ?thesis
  proof cases
    case 1
    with rhe_floor [of t] show ?thesis by linarith
  next
    case 2
    then have "odd \<lfloor>t\<rfloor>" using e by simp
    moreover have "1 / 2 \<le> t - of_int \<lfloor>t\<rfloor>" using a 2 by simp
    ultimately have "round_half_even t = \<lfloor>t\<rfloor> + 1"
      unfolding round_half_even_def Let_def by auto
    with 2 show ?thesis by simp
  qed
qed

lemma rhe_eq:
  assumes "of_int n - 1 / 2 < t" and "t < of_int n + 1 / 2"
  shows "round_half_even t = n"
  using assms unfolding round_half_even_def Let_def
  by (auto simp: not_less) linarith+

lemma rhe_numeral [simp]: "round_half_even (numeral k) = numeral k"
  using rhe_of_int [of "numeral k"] by simp

subsection \<open>Rounding to a float: bounds and monotonicity\<close>

lemma pow2_pos: "0 < (2::real) powr a"
  by simp

lemma pow2_int_diff:
  assumes "u \<le> k"
  shows "(2::real) powr of_int k = of_int (2 ^ nat (k - u)) * 2 powr of_int u"
proof -
  have "(2::real) powr of_int k = 2 powr (of_int (k - u) + of_int u)" by simp
  also have "\<dots> = 2 powr of_int (k - u) * 2 powr of_int u" by (rule powr_add)
  also have "(2::real) powr of_int (k - u) = 2 powr real (nat (k - u))"
    using assms by simp
  also have "\<dots> = 2 ^ nat (k - u)" by (simp add: powr_realpow)
  finally show ?thesis by simp
qed

text \<open>A multiple of a power of two that is at least the unit in the last place of x bounds the rounding of x as it bounds x.\<close>

lemma fl_real_upper:
  assumes "x \<le> of_int m * 2 powr of_int j" and "ulp_exponent x \<le> j"
  shows "fl_real x \<le> of_int m * 2 powr of_int j"
proof -
  define u where "u = ulp_exponent x"
  have p: "0 < (2::real) powr of_int u" by simp
  have j: "(2::real) powr of_int j = of_int (2 ^ nat (j - u)) * 2 powr of_int u"
    using assms(2) unfolding u_def by (rule pow2_int_diff)
  have "x / 2 powr of_int u \<le> of_int (m * 2 ^ nat (j - u))"
    using assms(1) p by (simp add: j divide_le_eq)
  then have "round_half_even (x / 2 powr of_int u) \<le> m * 2 ^ nat (j - u)"
    by (rule rhe_le)
  then have "of_int (round_half_even (x / 2 powr of_int u)) \<le> (of_int (m * 2 ^ nat (j - u)) :: real)"
    by (simp only: of_int_le_iff)
  then have "of_int (round_half_even (x / 2 powr of_int u)) * 2 powr of_int u
      \<le> (of_int (m * 2 ^ nat (j - u)) :: real) * 2 powr of_int u"
    using p by (simp only: mult_le_cancel_right_pos)
  then show ?thesis
    unfolding fl_real_def u_def [symmetric] by (simp add: j)
qed

lemma fl_real_lower:
  assumes "of_int m * 2 powr of_int j \<le> x" and "ulp_exponent x \<le> j"
  shows "of_int m * 2 powr of_int j \<le> fl_real x"
proof -
  define u where "u = ulp_exponent x"
  have p: "0 < (2::real) powr of_int u" by simp
  have j: "(2::real) powr of_int j = of_int (2 ^ nat (j - u)) * 2 powr of_int u"
    using assms(2) unfolding u_def by (rule pow2_int_diff)
  have "of_int (m * 2 ^ nat (j - u)) \<le> x / 2 powr of_int u"
    using assms(1) p by (simp add: j le_divide_eq)
  then have "m * 2 ^ nat (j - u) \<le> round_half_even (x / 2 powr of_int u)"
    by (rule rhe_ge)
  then have "(of_int (m * 2 ^ nat (j - u)) :: real) \<le> of_int (round_half_even (x / 2 powr of_int u))"
    by (simp only: of_int_le_iff)
  then have "(of_int (m * 2 ^ nat (j - u)) :: real) * 2 powr of_int u
      \<le> of_int (round_half_even (x / 2 powr of_int u)) * 2 powr of_int u"
    using p by (simp only: mult_le_cancel_right_pos)
  then show ?thesis
    unfolding fl_real_def u_def [symmetric] by (simp add: j)
qed

lemma fl_real_0: "fl_real 0 = 0"
  by (simp add: fl_real_def rhe_of_int [of 0, simplified])

lemma floor_log2_le:
  assumes "0 < x" and "x \<le> 2 powr of_int k"
  shows "\<lfloor>log 2 x\<rfloor> \<le> k"
proof -
  have "log 2 x \<le> of_int k"
    using assms by (simp add: log_le_iff)
  then show ?thesis by (simp add: floor_le_iff) 
qed

lemma floor_log2_less:
  assumes "0 < x" and "x < 2 powr of_int k"
  shows "\<lfloor>log 2 x\<rfloor> < k"
proof -
  have "log 2 x < of_int k"
    using assms by (simp add: log_less_iff)
  then show ?thesis by (simp add: floor_less_iff) 
qed

lemma pow2_floor_log2: 
  assumes "0 < x"
  shows "2 powr of_int \<lfloor>log 2 x\<rfloor> \<le> x"
proof -
  have "2 powr of_int \<lfloor>log 2 x\<rfloor> \<le> 2 powr log 2 x"
    by (simp)
  with assms show ?thesis by simp
qed

lemma ulp_exponent_le:
  assumes "0 < x" and "x \<le> 2 powr of_int k" and "- 1074 \<le> k"
  shows "ulp_exponent x \<le> k"
  using floor_log2_le [OF assms(1,2)] assms(1,3) by (simp add: ulp_exponent_def)

lemma fl_real_le_pow2:
  assumes "0 < x" and "x \<le> 2 powr of_int k" and "- 1074 \<le> k"
  shows "fl_real x \<le> 2 powr of_int k"
  using fl_real_upper [of x 1 k] assms ulp_exponent_le [OF assms] by simp

lemma fl_real_ge_pow2:
  assumes "2 powr of_int k \<le> x" and "- 1074 \<le> k"
  shows "2 powr of_int k \<le> fl_real x"
proof (cases "ulp_exponent x \<le> k")
  case True
  with fl_real_lower [of 1 k x] assms show ?thesis by simp
next
  case False
  have x: "0 < x" using assms(1) pow2_pos [of "of_int k"] by linarith
  define e where "e = \<lfloor>log 2 x\<rfloor>"
  have ux: "ulp_exponent x = max e (- 1022) - 52"
    using x by (simp add: ulp_exponent_def e_def)
  from False assms(2) have u: "ulp_exponent x = e - 52" and "k < e - 52"
    unfolding ux by linarith+
  have "2 powr of_int e \<le> x" unfolding e_def using x by (rule pow2_floor_log2)
  with fl_real_lower [of 1 e x] u have "2 powr of_int e \<le> fl_real x" by simp
  moreover have "(2::real) powr of_int k \<le> 2 powr of_int e"
    using \<open>k < e - 52\<close> by simp
  ultimately show ?thesis by linarith
qed

lemma fl_real_pos_pow2:
  assumes "2 powr of_int k \<le> x" and "- 1074 \<le> k"
  shows "0 < fl_real x"
proof -
  have "2 powr of_int k \<le> fl_real x" using assms by (rule fl_real_ge_pow2)
  moreover have "0 < (2::real) powr of_int k" by simp
  ultimately show ?thesis by linarith
qed

lemma fl_real_nonneg: "0 \<le> x \<Longrightarrow> 0 \<le> fl_real x"
  using rhe_ge [of 0 "x / 2 powr of_int (ulp_exponent x)"]
  by (simp add: fl_real_def)

lemma fl_real_nonpos: "x \<le> 0 \<Longrightarrow> fl_real x \<le> 0"
  using rhe_le [of "x / 2 powr of_int (ulp_exponent x)" 0]
  by (simp add: fl_real_def divide_le_0_iff mult_le_0_iff)

lemma ulp_exponent_mono:
  assumes "0 < x" and "x \<le> y"
  shows "ulp_exponent x \<le> ulp_exponent y"
proof -
  have "log 2 x \<le> log 2 y" using assms by simp
  then have "\<lfloor>log 2 x\<rfloor> \<le> \<lfloor>log 2 y\<rfloor>" by (rule floor_mono)
  then show ?thesis using assms by (simp add: ulp_exponent_def)
qed

lemma fl_real_mono_pos:
  assumes "0 < x" and "x \<le> y"
  shows "fl_real x \<le> fl_real y"
proof (cases "ulp_exponent x = ulp_exponent y")
  case True
  have "x / 2 powr of_int (ulp_exponent y) \<le> y / 2 powr of_int (ulp_exponent y)"
    using assms(2) by (simp add: divide_le_cancel)
  then have "round_half_even (x / 2 powr of_int (ulp_exponent y))
      \<le> round_half_even (y / 2 powr of_int (ulp_exponent y))"
    by (rule rhe_mono)
  then show ?thesis
    unfolding fl_real_def True by (simp add: mult_le_cancel_right)
next
  case False
  with ulp_exponent_mono [OF assms] have lt: "ulp_exponent x < ulp_exponent y" by simp
  have y: "0 < y" using assms by linarith
  define k where "k = \<lfloor>log 2 y\<rfloor>"
  define a where "a = \<lfloor>log 2 x\<rfloor>"
  have ux: "ulp_exponent x = max a (- 1022) - 52" and uy: "ulp_exponent y = max k (- 1022) - 52"
    using assms(1) y by (simp_all add: ulp_exponent_def a_def k_def)
  from lt have ky: "ulp_exponent y = k - 52" and kx': "a < k" and k: "- 1022 < k"
    unfolding ux uy by linarith+
  have kx: "\<lfloor>log 2 x\<rfloor> < k" using kx' by (simp only: a_def)
  have "2 powr of_int k \<le> y" unfolding k_def using y by (rule pow2_floor_log2)
  then have 1: "2 powr of_int k \<le> fl_real y" using k by (intro fl_real_ge_pow2) auto
  have "log 2 x < of_int k" using kx by (simp add: floor_less_iff)
  then have "x < 2 powr of_int k" using assms(1) by (simp add: log_less_iff)
  then have "fl_real x \<le> 2 powr of_int k" using assms(1) k by (intro fl_real_le_pow2) auto
  with 1 show ?thesis by linarith
qed

lemma fl_real_mono:
  assumes "0 \<le> x" and "x \<le> y"
  shows "fl_real x \<le> fl_real y"
proof (cases "x = 0")
  case True
  then show ?thesis using assms fl_real_nonneg [of y] by (simp add: fl_real_0)
next
  case False
  then show ?thesis using assms by (intro fl_real_mono_pos) auto
qed

lemma ulp_exponent_eq:
  assumes "2 powr of_int k \<le> x" and "x < 2 powr of_int (k + 1)" and "- 1022 \<le> k"
  shows "ulp_exponent x = k - 52"
proof -
  have x: "0 < x" using assms(1) pow2_pos [of "of_int k"] by linarith
  have "\<lfloor>log 2 x\<rfloor> = k"
    using assms(1,2) x by (simp add: floor_log_eq_powr_iff)
  then show ?thesis using x assms(3) by (simp add: ulp_exponent_def)
qed

lemma ulp_exponent_lt:
  assumes "0 < x" and "x < 2 powr of_int (k + 53)" and "- 1074 \<le> k"
  shows "ulp_exponent x \<le> k"
  using floor_log2_less [OF assms(1,2)] assms(1,3) by (simp add: ulp_exponent_def)

lemma fl_real_between:
  assumes "of_int m * 2 powr of_int j \<le> x" and "x \<le> of_int n * 2 powr of_int j"
    and "0 < x" and "x < 2 powr of_int (j + 53)" and "- 1074 \<le> j"
  shows "of_int m * 2 powr of_int j \<le> fl_real x \<and> fl_real x \<le> of_int n * 2 powr of_int j"
proof -
  have "ulp_exponent x \<le> j" using assms(3,4,5) by (rule ulp_exponent_lt)
  with assms(1,2) show ?thesis by (simp add: fl_real_lower fl_real_upper)
qed

lemma fl_real_le_nat:
  assumes "0 \<le> x" and "x \<le> 2 ^ n"
  shows "fl_real x \<le> 2 ^ n"
proof (cases "x = 0")
  case True
  then show ?thesis by (simp add: fl_real_0)
next
  case False
  have "x \<le> 2 powr of_int (int n)" using assms(2) by (simp add: powr_realpow)
  with False assms(1) have "fl_real x \<le> 2 powr of_int (int n)"
    by (intro fl_real_le_pow2) simp_all
  then show ?thesis by (simp add: powr_realpow)
qed

lemma fl_real_ge_nat:
  assumes "2 ^ n \<le> x"
  shows "2 ^ n \<le> fl_real x"
proof -
  have "2 powr of_int (int n) \<le> x" using assms by (simp add: powr_realpow)
  then have "2 powr of_int (int n) \<le> fl_real x"
    by (rule fl_real_ge_pow2) simp
  then show ?thesis by (simp add: powr_realpow)
qed

lemma fl_real_tiny:
  assumes "0 \<le> x" and "x < 2 powr of_int (- 1075)"
  shows "fl_real x = 0"
proof (cases "x = 0")
  case True
  then show ?thesis by (simp add: fl_real_0)
next
  case False
  with assms(1) have x: "0 < x" by simp
  have "x < 2 powr of_int (- 1022)"
    using assms(2) by (rule less_le_trans) simp
  then have "\<lfloor>log 2 x\<rfloor> < - 1022" using x by (intro floor_log2_less)
  then have u: "ulp_exponent x = - 1074" using x by (simp add: ulp_exponent_def)
  have "(2::real) powr of_int (- 1075) = 2 powr of_int (- 1074) / 2"
    by (simp add: powr_minus_divide)
  with assms(2) have "x / 2 powr of_int (- 1074) < of_int 1 - 1 / 2"
    by (simp add: divide_less_eq)
  then have "round_half_even (x / 2 powr of_int (- 1074)) < 1" by (rule rhe_lt_half)
  moreover have "0 \<le> round_half_even (x / 2 powr of_int (- 1074))"
    using x by (intro rhe_ge) simp
  ultimately have "round_half_even (x / 2 powr of_int (- 1074)) = 0" by linarith
  then show ?thesis by (simp add: fl_real_def u)
qed

lemma fl_real_half_le:
  assumes "0 \<le> x"
  shows "fl_real (x / 2) \<le> x"
proof (cases "x < 2 powr of_int (- 1074)")
  case True
  have "(2::real) powr of_int (- 1075) = 2 powr of_int (- 1074) / 2"
    by (simp add: powr_minus_divide)
  with True have "x / 2 < 2 powr of_int (- 1075)" by simp
  with assms have "fl_real (x / 2) = 0" by (intro fl_real_tiny) simp_all
  with assms show ?thesis by simp
next
  case False
  then have lo: "2 powr of_int (- 1074) \<le> x" by simp
  then have x: "0 < x" using pow2_pos [of "of_int (- 1074)"] by linarith
  define k where "k = \<lfloor>log 2 x\<rfloor>"
  have k1: "2 powr of_int k \<le> x" unfolding k_def using x by (rule pow2_floor_log2)
  have "x < 2 powr of_int (k + 1)"
    using x floor_log_eq_powr_iff [of x 2 k] by (simp add: k_def)
  also have "\<dots> = 2 * 2 powr of_int k" by (simp add: powr_add)
  finally have k2: "x / 2 \<le> 2 powr of_int k" by simp
  have "log 2 (2 powr of_int (- 1074)) \<le> log 2 x" using lo x by (intro log_mono) simp_all
  then have "of_int (- 1074) \<le> log 2 x" by simp
  then have "- 1074 \<le> k" unfolding k_def by (simp add: le_floor_iff)
  with k2 x have "fl_real (x / 2) \<le> 2 powr of_int k" by (intro fl_real_le_pow2) simp_all
  with k1 show ?thesis by linarith
qed

text \<open>
  Two reals that are two grid steps apart, on a grid of floats, round to floats that are
  one step apart.
\<close>

lemma fl_real_separated:
  assumes "0 \<le> z" and "z + 2 * 2 powr of_int i \<le> y" and "y < 2 powr of_int (i + 53)"
    and "- 1074 \<le> i"
  shows "fl_real z + 2 powr of_int i \<le> fl_real y"
proof -
  define g :: real where "g = 2 powr of_int i"
  have g: "0 < g" by (simp add: g_def)
  have y: "0 < y" using assms(1,2) g unfolding g_def by linarith
  have uy: "ulp_exponent y \<le> i" using y assms(3,4) by (rule ulp_exponent_lt)
  define m where "m = \<lceil>z / g\<rceil>"
  have m1: "z \<le> of_int m * g"
    using g by (simp add: m_def pos_divide_le_eq [symmetric])
  have "of_int m < z / g + 1" unfolding m_def by linarith
  then have "of_int m * g < (z / g + 1) * g" using g by (simp only: mult_less_cancel_right_pos)
  then have m2: "of_int m * g < z + g" using g by (simp add: distrib_right)
  have up: "fl_real z \<le> of_int m * g"
  proof (cases "z = 0")
    case True
    then have "m = 0" by (simp add: m_def)
    with True show ?thesis by (simp add: fl_real_0)
  next
    case False
    with assms(1) have z: "0 < z" by simp
    have "z < 2 powr of_int (i + 53)" using assms(2,3) g unfolding g_def by linarith
    with z have "ulp_exponent z \<le> i" using assms(4) by (intro ulp_exponent_lt)
    with m1 show ?thesis unfolding g_def by (intro fl_real_upper)
  qed
  have "of_int (m + 1) * g \<le> y" using m2 assms(2) by (simp add: g_def distrib_right)
  then have "of_int (m + 1) * g \<le> fl_real y" using uy unfolding g_def by (intro fl_real_lower)
  with up show ?thesis by (simp add: g_def distrib_right)
qed

subsection \<open>Floats that round to themselves\<close>

lemma fl_real_exact:
  assumes "0 < m" and "m < 2 ^ 53" and "- 1074 \<le> j"
  shows "fl_real (of_int m * 2 powr of_int j) = of_int m * 2 powr of_int j"
proof -
  define x :: real where "x = of_int m * 2 powr of_int j"
  have x: "0 < x" using assms(1) by (simp add: x_def)
  have "(of_int m :: real) < of_int (2 ^ 53)" using assms(2) by (simp only: of_int_less_iff)
  then have "(of_int m :: real) < 2 ^ 53" by simp
  then have "x < 2 ^ 53 * 2 powr of_int j" by (simp add: x_def)
  also have "\<dots> = 2 powr of_int (j + 53)"
    by (simp add: powr_add powr_numeral [symmetric] del: powr_numeral)
  finally have u: "ulp_exponent x \<le> j" using x assms(3) by (intro ulp_exponent_lt)
  have "fl_real x \<le> x" unfolding x_def [symmetric] using u
    by (subst (2) x_def, intro fl_real_upper) (simp_all add: x_def)
  moreover have "x \<le> fl_real x" using u
    by (subst (1) x_def, intro fl_real_lower) (simp_all add: x_def)
  ultimately show ?thesis unfolding x_def by linarith
qed

lemma fl_real_of_int:
  assumes "0 \<le> n" and "n < 2 ^ 53"
  shows "fl_real (of_int n) = of_int n"
proof (cases "n = 0")
  case True
  then show ?thesis by (simp add: fl_real_0)
next
  case False
  with fl_real_exact [of n 0] assms show ?thesis by simp
qed

lemma fl_real_1: "fl_real 1 = 1"
  using fl_real_of_int [of 1] by simp

subsection \<open>Overflow to an infinity\<close>

lemma fl_PInf_iff: "fl x = PInf \<longleftrightarrow> 2 ^ 1024 - 2 ^ 970 \<le> x"
proof -
  have p1024: "(2::real) powr of_int 1024 = 2 ^ 1024" and p1023: "(2::real) powr of_int 1023 = 2 ^ 1023"
    and p971: "(2::real) powr of_int 971 = 2 ^ 971"
    by simp_all
  have "2 ^ 1024 \<le> fl_real x \<longleftrightarrow> 2 ^ 1024 - 2 ^ 970 \<le> x"
  proof
    assume a: "2 ^ 1024 - 2 ^ 970 \<le> x"
    show "2 ^ 1024 \<le> fl_real x"
    proof (cases "2 ^ 1024 \<le> x")
      case True
      then have "2 powr of_int 1024 \<le> x" by simp
      then have "2 powr of_int 1024 \<le> fl_real x"
        by (rule fl_real_ge_pow2) simp
      then show ?thesis by simp
    next
      case False
      have "(2::real) ^ 1023 \<le> 2 ^ 1024 - 2 ^ 970" by simp
      with a have "2 powr of_int 1023 \<le> x" by simp
      moreover have "x < 2 powr of_int (1023 + 1)" using False by simp
      ultimately have u: "ulp_exponent x = 971" using ulp_exponent_eq [of 1023 x] by simp
      have "of_int (2 ^ 53) - 1 / 2 \<le> x / 2 ^ 971"
        using a by (simp add: le_divide_eq)
      then have "2 ^ 53 \<le> round_half_even (x / 2 ^ 971)"
        by (rule rhe_ge_half) simp
      then have "(of_int (2 ^ 53) :: real) \<le> of_int (round_half_even (x / 2 ^ 971))"
        by (simp only: of_int_le_iff)
      then have "(2::real) ^ 53 \<le> of_int (round_half_even (x / 2 ^ 971))"
        by simp
      then have "(2::real) ^ 53 * 2 ^ 971 \<le> of_int (round_half_even (x / 2 ^ 971)) * 2 ^ 971"
        by (simp only: mult_le_cancel_right_pos zero_less_power zero_less_numeral)
      then show ?thesis unfolding fl_real_def u p971 by simp
    qed
  next
    assume b: "2 ^ 1024 \<le> fl_real x"
    show "2 ^ 1024 - 2 ^ 970 \<le> x"
    proof (rule ccontr)
      assume "\<not> 2 ^ 1024 - 2 ^ 970 \<le> x"
      then have lt: "x < 2 ^ 1024 - 2 ^ 970" by simp
      have "fl_real x < 2 ^ 1024"
      proof (cases "x \<le> 2 ^ 1023")
        case True
        show ?thesis
        proof (cases "0 < x")
          case True
          from \<open>x \<le> 2 ^ 1023\<close> have "x \<le> 2 powr of_int 1023" by simp
          with True have "fl_real x \<le> 2 powr of_int 1023"
            by (intro fl_real_le_pow2) simp_all
          then have "fl_real x \<le> 2 ^ 1023" by simp
          moreover have "(2::real) ^ 1023 < 2 ^ 1024" by simp
          ultimately show ?thesis by linarith
        next
          case False
          then have "fl_real x \<le> 0" by (intro fl_real_nonpos) simp
          moreover have "(0::real) < 2 ^ 1024" by simp
          ultimately show ?thesis by linarith
        qed
      next
        case False
        then have "2 powr of_int 1023 \<le> x" by simp
        moreover have "x < 2 powr of_int (1023 + 1)" using lt by simp
        ultimately have u: "ulp_exponent x = 971" using ulp_exponent_eq [of 1023 x] by simp
        have "x / 2 ^ 971 < of_int (2 ^ 53) - 1 / 2"
          using lt by (simp add: divide_less_eq)
        then have "round_half_even (x / 2 ^ 971) < 2 ^ 53" by (rule rhe_lt_half)
        then have "round_half_even (x / 2 ^ 971) \<le> 2 ^ 53 - 1" by simp
        then have "(of_int (round_half_even (x / 2 ^ 971)) :: real) \<le> of_int (2 ^ 53 - 1)"
          by (simp only: of_int_le_iff)
        then have "of_int (round_half_even (x / 2 ^ 971)) \<le> (2::real) ^ 53 - 1"
          by simp
        then have "of_int (round_half_even (x / 2 ^ 971)) * 2 ^ 971 \<le> ((2::real) ^ 53 - 1) * 2 ^ 971"
          by (simp only: mult_le_cancel_right_pos zero_less_power zero_less_numeral)
        then show ?thesis unfolding fl_real_def u p971 by simp
      qed
      with b show False by simp
    qed
  qed
  then show ?thesis by (simp add: fl_def Let_def)
qed

lemma fl_overflow_iff: "fl x = PInf \<longleftrightarrow> overflow_threshold \<le> x"
  unfolding overflow_threshold_def by (rule fl_PInf_iff)

lemma threshold_gt_1: "1 < overflow_threshold"
  by (simp add: overflow_threshold_def)

lemma pow2_ge_threshold:
  assumes "1024 \<le> x"
  shows "overflow_threshold \<le> 2 powr x"
proof -
  have "(2::real) powr 1024 \<le> 2 powr x" using assms by (intro powr_mono) simp_all
  moreover have "overflow_threshold \<le> 2 powr 1024" by (simp add: overflow_threshold_def)
  ultimately show ?thesis by linarith
qed

lemma pow2_lt_threshold:
  assumes "x \<le> 1023"
  shows "\<not> overflow_threshold \<le> 2 powr x"
proof -
  have "(2::real) powr x \<le> 2 powr 1023" using assms by (intro powr_mono) simp_all
  moreover have "(2::real) powr 1023 < overflow_threshold" by (simp add: overflow_threshold_def)
  ultimately show ?thesis by linarith
qed

lemma pow2_lt_threshold_imp:
  assumes "\<not> overflow_threshold \<le> 2 powr x"
  shows "x < 1024"
proof (rule ccontr)
  assume "\<not> x < 1024"
  then have "1024 \<le> x" by simp
  from pow2_ge_threshold [OF this] assms show False by simp
qed

lemma fl_eq_Fin:
  assumes "- (2 ^ 1024) < fl_real x" and "fl_real x < 2 ^ 1024"
  shows "fl x = Fin (fl_real x)"
  using assms by (simp add: fl_def Let_def)

lemma fl_small:
  assumes "0 \<le> x" and "x \<le> 2 ^ 1023"
  shows "fl x = Fin (fl_real x)"
proof -
  have "fl_real x \<le> 2 ^ 1023" using assms by (rule fl_real_le_nat)
  moreover have "(2::real) ^ 1023 < 2 ^ 1024" by simp
  moreover have "0 \<le> fl_real x" using assms(1) by (rule fl_real_nonneg)
  moreover have "- ((2::real) ^ 1024) < 0" by simp
  ultimately show ?thesis by (intro fl_eq_Fin) linarith+
qed

lemma fl_0: "fl 0 = Fin 0"
  using fl_small [of 0] by (simp add: fl_real_0)

lemma fl_of_int:
  assumes "0 \<le> n" and "n < 2 ^ 53"
  shows "fl (of_int n) = Fin (of_int n)"
proof -
  have "(of_int n :: real) < of_int (2 ^ 53)" using assms(2) by (simp only: of_int_less_iff)
  then have "(of_int n :: real) \<le> 2 ^ 53" by simp
  moreover have "(2::real) ^ 53 \<le> 2 ^ 1023" by simp
  ultimately have "(of_int n :: real) \<le> 2 ^ 1023" by linarith
  then have "fl (of_int n) = Fin (fl_real (of_int n))"
    using assms(1) by (intro fl_small) simp_all
  then show ?thesis using assms by (simp add: fl_real_of_int)
qed

lemma fl_1: "fl 1 = Fin 1"
  using fl_of_int [of 1] by simp

lemma fl_half: "fl (1 / 2) = Fin (1 / 2)"
proof -
  have "fl_real (of_int 1 * 2 powr of_int (- 1)) = of_int 1 * 2 powr of_int (- 1)"
    by (rule fl_real_exact) simp_all
  then have "fl_real (1 / 2) = 1 / 2" by (simp add: powr_minus_divide)
  moreover have "fl (1 / 2) = Fin (fl_real (1 / 2))" by (rule fl_small) simp_all
  ultimately show ?thesis by simp
qed

lemma fl_between:
  assumes "of_int m * 2 powr of_int j \<le> x" and "x \<le> of_int n * 2 powr of_int j"
    and "0 < x" and "x < 2 powr of_int (j + 53)" and "- 1074 \<le> j" and "x \<le> 2 ^ 1023"
  shows "\<exists>y. fl x = Fin y \<and> of_int m * 2 powr of_int j \<le> y \<and> y \<le> of_int n * 2 powr of_int j"
proof -
  have "fl x = Fin (fl_real x)" using assms(3,6) by (intro fl_small) simp_all
  with fl_real_between [OF assms(1-5)] show ?thesis by blast
qed

lemma fl_quotient:
  assumes "0 \<le> x" and "x < 2 ^ 1024" and "2 \<le> c"
  shows "fl (x / c) = Fin (fl_real (x / c))"
proof -
  have "x / c \<le> x / 2" using assms(1,3) by (intro divide_left_mono) simp_all
  also have "\<dots> \<le> 2 ^ 1023" using assms(2) by simp
  finally have "x / c \<le> 2 ^ 1023" .
  moreover have "0 \<le> x / c" using assms(1,3) by simp
  ultimately show ?thesis by (intro fl_small)
qed

lemma fl_nonneg:
  assumes "0 \<le> x"
  shows "fl x = PInf \<or> (\<exists>v. fl x = Fin v \<and> 0 \<le> v)"
  using fl_real_nonneg [OF assms] by (auto simp: fl_def Let_def)

lemma fl_ge_1:
  assumes "1 \<le> x"
  shows "fl x = PInf \<or> (\<exists>v. fl x = Fin v \<and> 1 \<le> v)"
proof -
  have "2 ^ 0 \<le> fl_real x" using assms by (intro fl_real_ge_nat) simp
  then show ?thesis by (auto simp: fl_def Let_def)
qed

lemma fl_nonneg_eq:
  assumes "0 \<le> x"
  shows "fl x = (if overflow_threshold \<le> x then PInf else Fin (fl_real x))"
proof (cases "overflow_threshold \<le> x")
  case True
  then show ?thesis by (simp add: fl_overflow_iff)
next
  case False
  then have "fl x \<noteq> PInf" by (simp add: fl_overflow_iff)
  moreover have "0 \<le> fl_real x" using assms by (rule fl_real_nonneg)
  moreover have "- ((2::real) ^ 1024) < 0" by simp
  ultimately have "fl x = Fin (fl_real x)"
    unfolding fl_def Let_def by (auto split: if_splits)
  with False show ?thesis by simp
qed

lemma fl_mono:
  assumes "0 \<le> u" and "u \<le> v"
  shows "fle (fl u) (fl v)"
proof -
  have v: "0 \<le> v" using assms by linarith
  have "fl_real u \<le> fl_real v" using assms by (rule fl_real_mono)
  then show ?thesis using assms(2) by (simp add: fl_nonneg_eq [OF assms(1)] fl_nonneg_eq [OF v])
qed

subsection \<open>Powers of two and logarithms\<close>

lemma log2_ge:
  assumes "2 ^ a \<le> (n::real) ^ b" and "0 < b" and "0 < n"
  shows "real a / real b \<le> log 2 n"
proof -
  have "log 2 (2 ^ a) \<le> log 2 (n ^ b)"
    using assms by (simp del: log_pow_cancel log_nat_power)
  then have "real a \<le> real b * log 2 n"
    using assms(3) by (simp add: log_nat_power)
  then show ?thesis using assms(2) by (simp add: divide_le_eq mult.commute)
qed

lemma log2_le:
  assumes "(n::real) ^ b \<le> 2 ^ a" and "0 < b" and "0 < n"
  shows "log 2 n \<le> real a / real b"
proof -
  have "log 2 (n ^ b) \<le> log 2 (2 ^ a)"
    using assms by (simp del: log_pow_cancel log_nat_power)
  then have "real b * log 2 n \<le> real a"
    using assms(3) by (simp add: log_nat_power)
  then show ?thesis using assms(2) by (simp add: le_divide_eq mult.commute)
qed

lemma log2_26_bounds: "601 / 128 \<le> log 2 26 \<and> log 2 26 \<le> 301 / 64"
  using log2_ge [of 601 26 128] log2_le [of 26 64 301] by simp

lemma fl_log2_26:
  "\<exists>l. fl (log 2 26) = Fin l \<and> 601 / 128 \<le> l \<and> l \<le> 301 / 64"
proof -
  define l where "l = fl_real (log 2 26)"
  have p: "(2::real) powr (- 7) = 1 / 128"
    by (simp add: powr_minus_divide)
  have "of_int 601 * 2 powr of_int (- 7) \<le> fl_real (log 2 26)
      \<and> fl_real (log 2 26) \<le> of_int 602 * 2 powr of_int (- 7)"
    using log2_26_bounds by (intro fl_real_between) (simp_all add: p)
  then have b: "601 / 128 \<le> l \<and> l \<le> 301 / 64" by (simp add: p l_def)
  have "fl (log 2 26) = Fin (fl_real (log 2 26))"
    using log2_26_bounds by (intro fl_small) simp_all
  with b show ?thesis unfolding l_def by blast
qed

lemma fl_log2_pool:
  assumes "1 \<le> n" and "n \<le> 256"
  shows "\<exists>lg. fl (log 2 (of_int n)) = Fin lg \<and> 0 \<le> lg \<and> lg \<le> 2 ^ 3"
proof -
  have n: "(1::real) \<le> of_int n" "(of_int n :: real) \<le> 2 ^ 8" using assms by simp_all
  have lo: "0 \<le> log 2 (of_int n)" using n(1) by simp
  have hi: "log 2 (of_int n) \<le> 2 ^ 3" using n by (simp add: log_le_iff)
  have "fl_real (log 2 (of_int n)) \<le> 2 ^ 3" using lo hi by (rule fl_real_le_nat)
  moreover have "0 \<le> fl_real (log 2 (of_int n))" using lo by (rule fl_real_nonneg)
  moreover have "fl (log 2 (of_int n)) = Fin (fl_real (log 2 (of_int n)))"
    using lo hi by (intro fl_small) simp_all
  ultimately show ?thesis by blast
qed

lemma pow2_neg_15_32: "2 powr (- (15 / 32)) \<le> (3 / 4 :: real)"
proof -
  define u :: real where "u = 2 powr (- (15 / 32))"
  have "u ^ 32 = u powr (real 32)" by (rule powr_realpow [symmetric]) (simp add: u_def)
  also have "\<dots> = 2 powr (- (15 / 32) * real 32)" by (simp only: u_def powr_powr)
  also have "\<dots> = 2 powr (- 15)" by simp
  also have "\<dots> = 1 / 2 ^ 15" by (simp add: powr_minus_divide)
  also have "\<dots> \<le> (3 / 4) ^ 32" by (simp add: power_divide)
  finally have "u ^ Suc 31 \<le> (3 / 4) ^ Suc 31" by simp
  then have "u \<le> 3 / 4" by (rule power_le_imp_le_base) simp
  then show ?thesis by (simp add: u_def)
qed

lemma pow2_root_le:
  assumes "0 < n"
  shows "2 powr (1 / real n) \<le> 1 + 1 / real n"
proof -
  from assms obtain m where n: "n = Suc m" by (cases n) auto
  define u :: real where "u = 2 powr (1 / real n)"
  have "u ^ n = u powr real n" by (rule powr_realpow [symmetric]) (simp add: u_def)
  also have "\<dots> = 2 powr (1 / real n * real n)" by (simp only: u_def powr_powr)
  also have "\<dots> = 2" using assms by simp
  finally have un: "u ^ n = 2" .
  have "1 + real n * (1 / real n) \<le> (1 + 1 / real n) ^ n"
  proof (rule Bernoulli_inequality)
    have "0 \<le> 1 / real n" by simp
    then show "- 1 \<le> 1 / real n" by linarith
  qed
  then have "u ^ n \<le> (1 + 1 / real n) ^ n" using assms un by simp
  then have "u ^ Suc m \<le> (1 + 1 / real n) ^ Suc m" by (simp only: n)
  then have "u \<le> 1 + 1 / real n" by (rule power_le_imp_le_base) simp
  then show ?thesis by (simp add: u_def)
qed

lemma fl_real_pow2_tiny:
  assumes "0 \<le> y" and "y \<le> 1 / 2 ^ 54"
  shows "fl_real (2 powr y) = 1"
proof -
  define A :: real where "A = 2 powr y"
  have lo: "1 \<le> A" unfolding A_def using assms(1) by (simp add: ge_one_powr_ge_zero)
  have "A \<le> 2 powr (1 / real (2 ^ 54 :: nat))"
    unfolding A_def using assms(2) by (intro powr_mono) simp_all
  also have "\<dots> \<le> 1 + 1 / real (2 ^ 54 :: nat)" by (rule pow2_root_le) simp
  finally have hi: "A \<le> 1 + 1 / 2 ^ 54" by simp
  have "2 powr of_int 0 \<le> A" using lo by simp
  moreover have "A < 2 powr of_int (0 + 1)" using hi by simp
  ultimately have u: "ulp_exponent A = 0 - 52" by (rule ulp_exponent_eq) simp
  have p: "(2::real) powr (- 52) = 1 / 2 ^ 52" by (simp add: powr_minus_divide)
  have "round_half_even (A / 2 powr of_int (0 - 52)) = 2 ^ 52"
    using lo hi by (intro rhe_eq) (simp_all add: p)
  then show ?thesis by (simp add: fl_real_def u A_def [symmetric] p)
qed

lemma half_exponent_bound:
  assumes "1 \<le> x" and "x < 1024"
  shows "fl_real (x / 2) \<le> x - 15 / 32"
proof -
  define m where "m = \<lceil>16 * x\<rceil>"
  have p: "(2::real) powr (- 5) = 1 / 32" by (simp add: powr_minus_divide)
  have "16 * x \<le> of_int m" unfolding m_def by (rule le_of_int_ceiling)
  then have le: "x / 2 \<le> of_int m * 2 powr of_int (- 5)" by (simp add: p)
  have "x / 2 < 2 ^ 48" using assms(2) by simp
  then have "x / 2 < 2 powr of_int (- 5 + 53)" by simp
  moreover have "0 < x / 2" using assms(1) by simp
  ultimately have "ulp_exponent (x / 2) \<le> - 5" by (intro ulp_exponent_lt) simp_all
  with le have "fl_real (x / 2) \<le> of_int m * 2 powr of_int (- 5)" by (rule fl_real_upper)
  moreover have "of_int m < 16 * x + 1" unfolding m_def by linarith
  ultimately show ?thesis using assms(1) by (simp add: p)
qed

lemma pow2_step:
  assumes "1 \<le> x" and "x < 1024"
  shows "fl_real (2 powr fl_real (x / 2)) + 2 powr of_int (\<lfloor>x\<rfloor> - 3) \<le> fl_real (2 powr x)
       \<and> fl_real (2 powr x) \<le> 2 powr of_int (\<lfloor>x\<rfloor> - 3 + 4)"
proof -
  define h where "h = fl_real (x / 2)"
  define i where "i = \<lfloor>x\<rfloor> - 3"
  define A :: real where "A = 2 powr x"
  have A: "0 < A" by (simp add: A_def)
  have "h - x \<le> - (15 / 32)" using half_exponent_bound [OF assms] by (simp add: h_def)
  then have "(2::real) powr (h - x) \<le> 2 powr (- (15 / 32))" by (intro powr_mono) simp_all
  with pow2_neg_15_32 have "(2::real) powr (h - x) \<le> 3 / 4" by linarith
  then have "2 powr (h - x) * A \<le> 3 / 4 * A" using A by (simp only: mult_le_cancel_right_pos)
  moreover have "2 powr (h - x) * A = 2 powr h" by (simp add: A_def powr_add [symmetric])
  ultimately have B: "2 powr h \<le> 3 / 4 * A" by simp
  have "of_int (i + 1) \<le> x - 2" unfolding i_def by simp
  then have "(2::real) powr of_int (i + 1) \<le> 2 powr (x - 2)" by (intro powr_mono) simp_all
  also have "\<dots> = A / 4" by (simp add: A_def powr_diff)
  finally have "2 powr of_int (i + 1) \<le> A / 4" .
  moreover have "(2::real) powr of_int (i + 1) = 2 * 2 powr of_int i" by (simp add: powr_add)
  ultimately have g: "2 * 2 powr of_int i \<le> A / 4" by simp
  have s: "2 powr h + 2 * 2 powr of_int i \<le> A" using B g by linarith
  have "x < of_int (i + 4)" unfolding i_def by simp linarith
  then have lt: "A < 2 powr of_int (i + 4)" unfolding A_def by (intro powr_less_mono) simp_all
  also have "\<dots> \<le> 2 powr of_int (i + 53)" by (intro powr_mono) simp_all
  finally have lt53: "A < 2 powr of_int (i + 53)" .
  have i: "- 1074 \<le> i" using assms(1) unfolding i_def by linarith
  have "fl_real (2 powr h) + 2 powr of_int i \<le> fl_real A"
    using s lt53 i by (intro fl_real_separated) simp_all
  moreover have "fl_real A \<le> 2 powr of_int (i + 4)"
    using A lt i by (intro fl_real_le_pow2) simp_all
  ultimately show ?thesis by (simp add: A_def h_def i_def)
qed

section \<open>Properties of the operators\<close>

lemma pybind_Inr [simp]: "pybind (Inr v) f = f v"
  by (simp add: pybind_def)

lemma pybind_Inl [simp]: "pybind (Inl e) f = Inl e"
  by (simp add: pybind_def)

lemma fdiv_returns:
  assumes "y \<noteq> Fin 0"
  shows "\<exists>q. fdiv x y = Inr q"
  using assms by (cases x; cases y) auto

lemma fdiv_by_2: "fdiv x (Fin 2) = Inr (case x of Fin a \<Rightarrow> fl (a / 2) | _ \<Rightarrow> x)"
  by (cases x) auto

lemma not_fle_0_nonzero: "\<not> fle ops (Fin 0) \<Longrightarrow> ops \<noteq> Fin 0"
  by auto

lemma fdiv_nonneg:
  assumes "a = NaN \<or> a = PInf \<or> (\<exists>v. a = Fin v \<and> 0 \<le> v)" and "\<not> fle ops (Fin 0)"
  shows "\<exists>q. fdiv a ops = Inr q \<and> (q = NaN \<or> q = PInf \<or> (\<exists>v. q = Fin v \<and> 0 \<le> v))"
proof (cases ops)
  case (Fin r)
  with assms(2) have r: "0 < r" by simp
  show ?thesis
  proof (cases a)
    case (Fin v)
    with assms(1) have "0 \<le> v / r" using r by simp
    from fl_nonneg [OF this] Fin \<open>ops = Fin r\<close> r show ?thesis by auto
  qed (use assms(1) r \<open>ops = Fin r\<close> in auto)
next
  case PInf
  with assms(1) show ?thesis by (cases a) auto
next
  case NInf
  with assms(2) show ?thesis by simp
next
  case NaN
  then show ?thesis by (cases a) auto
qed

lemma float_of_int_small:
  assumes "0 \<le> n" and "n < 2 ^ 53"
  shows "float_of_int n = Inr (Fin (of_int n))"
  using fl_of_int [OF assms] by (simp add: float_of_int_def)

lemma math_log2_small:
  assumes "0 < n" and "n < 2 ^ 53"
  shows "math_log2 n = Inr (fl (log 2 (of_int n)))"
  using assms fl_of_int [of n] by (simp add: math_log2_def)

lemma math_log2_26: "math_log2 26 = Inr (fl (log 2 26))"
  using fl_of_int [of 26] by (simp add: math_log2_def)

lemma py_pow2_overflow_iff:
  "py_pow2 e = Inl OverflowError \<longleftrightarrow> (\<exists>x. e = Fin x \<and> overflow_threshold \<le> 2 powr x)"
proof (cases e)
  case (Fin x)
  show ?thesis
  proof (cases "x = 0")
    case True
    with Fin threshold_gt_1 show ?thesis by simp
  next
    case False
    with Fin show ?thesis by (simp add: fl_overflow_iff)
  qed
qed simp_all

lemma py_pow2_cases: "py_pow2 e = Inl OverflowError \<or> (\<exists>p. py_pow2 e = Inr p)"
  by (cases e) auto

lemma py_pow2_Fin:
  "py_pow2 (Fin x) =
     (if overflow_threshold \<le> 2 powr x then Inl OverflowError
      else Inr (Fin (fl_real (2 powr x))))"
proof (cases "x = 0")
  case True
  have "\<not> overflow_threshold \<le> 1" using threshold_gt_1 by simp
  with True show ?thesis by (simp add: fl_real_1)
next
  case False
  have "0 \<le> 2 powr x" by simp
  from fl_nonneg_eq [OF this] False show ?thesis by (simp add: fl_overflow_iff)
qed

lemma py_pow2_nonneg:
  assumes "py_pow2 e = Inr p"
  shows "p = NaN \<or> p = PInf \<or> (\<exists>v. p = Fin v \<and> 0 \<le> v)"
proof (cases e)
  case (Fin x)
  have "0 \<le> 2 powr x" by simp
  from fl_nonneg [OF this] Fin assms show ?thesis by (auto split: if_splits)
qed (use assms in auto)

lemma log10_succ_returns:
  assumes "t = NaN \<or> t = PInf \<or> (\<exists>v. t = Fin v \<and> 0 \<le> v)"
  shows "\<exists>l. math_log10 (fadd t (Fin 1)) = Inr l"
proof (cases t)
  case (Fin v)
  with assms have "1 \<le> v + 1" by simp
  from fl_ge_1 [OF this] Fin show ?thesis by auto
qed (use assms in auto)

section \<open>The entropy estimate\<close>

subsection \<open>The character pool\<close>

text \<open>
  C2, as amended. For every password the pool that \<open>estimate_entropy\<close> computes is the sum
  of the sizes 26, 26, 10 and 32 of the classes present: one of 0, 10, 26, 32, 36, 42, 52,
  58, 62, 68, 84 and 94.
\<close>

theorem char_pool_values:
  "char_pool db password \<in> {0, 10, 26, 32, 36, 42, 52, 58, 62, 68, 84, 94}"
  by (simp add: char_pool_def Let_def)

text \<open>
  C2 as stated fails: the password \<^verbatim>\<open>"7"\<close> has the pool 10 of the digits alone, which is
  not among 0, 26, 36, 46, 52, 58, 62, 68, 78, 88 and 94.
\<close>

theorem char_pool_digit_cex:
  "char_pool latin1_db (ascii ''7'') = 10
   \<and> char_pool latin1_db (ascii ''7'') \<notin> {0, 26, 36, 46, 52, 58, 62, 68, 78, 88, 94}"
  by (simp add: char_pool_def Let_def ascii_def islower_def isupper_def isdigit_def punctuation_def)

lemma char_pool_zero_iff:
  "char_pool db password = 0 \<longleftrightarrow>
     \<not> list_ex (islower db) password \<and> \<not> list_ex (isupper db) password
     \<and> \<not> list_ex (isdigit db) password \<and> \<not> list_ex (\<lambda>c. c \<in> set punctuation) password"
  by (auto simp: char_pool_def Let_def)

lemma punctuation_codes:
  "punctuation = [33..<48] @ [58..<65] @ [91..<97] @ [123..<127]"
  by (simp add: punctuation_def ascii_def upt_rec)

lemma punctuation_length: "length punctuation = 32"
  by (simp add: punctuation_def ascii_def)

lemma char_pool_presence:
  assumes "set q = set p"
  shows "char_pool db q = char_pool db p"
  using assms by (simp add: char_pool_def list_ex_iff)

lemma char_pool_less: "char_pool db p < 2 ^ 53"
proof -
  have "char_pool db p \<le> 94"
    by (simp add: char_pool_def Let_def)
  then show ?thesis by simp
qed

lemma char_pool_nonneg: "0 \<le> char_pool db p"
  by (simp add: char_pool_def Let_def)

lemma char_pool_lowercase_only:
  assumes "p \<noteq> []"
    and "list_all (\<lambda>c. islower db c \<and> \<not> isupper db c \<and> \<not> isdigit db c \<and> c \<notin> set punctuation) p"
  shows "char_pool db p = 26"
proof -
  from assms(1) obtain c where "c \<in> set p" by (cases p) auto
  with assms(2) have "list_ex (islower db) p"
    by (auto simp: list_all_iff list_ex_iff)
  moreover from assms(2) have "\<not> list_ex (isupper db) p" "\<not> list_ex (isdigit db) p"
      "\<not> list_ex (\<lambda>c. c \<in> set punctuation) p"
    by (auto simp: list_all_iff list_ex_iff)
  ultimately show ?thesis by (simp add: char_pool_def)
qed

lemma char_pool_all_classes: "char_pool db (ascii ''aA1!'') = 94"
  by (simp add: char_pool_def ascii_def islower_def isupper_def isdigit_def punctuation_def)

lemma char_pool_e_acute: "char_pool latin1_db [233] = 26"
  by (simp add: char_pool_def Let_def islower_def isupper_def isdigit_def punctuation_def ascii_def)

subsection \<open>Passwords without a recognized character\<close>

text \<open>
  C3 as stated fails: the one-letter password U+00E9 (e with acute, a non-ASCII letter) is
  lowercase for \<^verbatim>\<open>str.islower\<close>, so its pool is 26 and its entropy is \<open>round(log2(26), 2)\<close>,
  the float nearest to 4.7, not \<open>0.0\<close>.
\<close>

theorem non_ascii_letter_cex:
  "estimate_entropy latin1_db [233] = Inr (Fin (fl_real (47 / 10)))
   \<and> estimate_entropy latin1_db [233] \<noteq> Inr (Fin 0)"
proof -
  have p: "(2::real) powr (- 7) = 1 / 128"
    by (simp add: powr_minus_divide)
  from fl_log2_26 obtain l where l: "fl (log 2 26) = Fin l" "601 / 128 \<le> l" "l \<le> 301 / 64"
    by blast
  have "\<exists>y. fl l = Fin y \<and> of_int 601 * 2 powr of_int (- 7) \<le> y \<and> y \<le> of_int 602 * 2 powr of_int (- 7)"
    using l(2,3) by (intro fl_between) (simp_all add: p)
  then obtain y where y: "fl l = Fin y" "601 / 128 \<le> y" "y \<le> 301 / 64"
    by (auto simp: p)
  have "round_half_even (y * 100) = 470"
    using y(2,3) by (intro rhe_eq) simp_all
  then have r: "py_round2 (Fin y) = fl (47 / 10)" by simp
  have f: "fl (47 / 10) = Fin (fl_real (47 / 10))" by (intro fl_small) simp_all
  have "2 ^ 2 \<le> fl_real (47 / 10)" by (rule fl_real_ge_nat) simp
  then have nz: "fl_real (47 / 10) \<noteq> 0" by simp
  have "estimate_entropy latin1_db [233] = Inr (Fin (fl_real (47 / 10)))"
    using l(1) y(1) r f float_of_int_small [of 1]
    by (simp add: estimate_entropy_def char_pool_e_acute math_log2_26)
  with nz show ?thesis by simp
qed

text \<open>
  C3, as amended. For every password that is empty or has no character that
  \<^verbatim>\<open>str.islower\<close>, \<^verbatim>\<open>str.isupper\<close> or \<^verbatim>\<open>str.isdigit\<close> accepts or that is in
  \<^verbatim>\<open>string.punctuation\<close>, \<open>estimate_entropy\<close> returns exactly \<open>0.0\<close>; every string of
  spaces is such a password. (A cased non-ASCII letter is inside the lowercase or the
  uppercase class.)
\<close>

theorem unclassified_password_zero:
  "(list_all (\<lambda>c. \<not> islower db c \<and> \<not> isupper db c \<and> \<not> isdigit db c
        \<and> c \<notin> set punctuation) password
      \<longrightarrow> estimate_entropy db password = Inr (Fin 0))
   \<and> estimate_entropy db [] = Inr (Fin 0)
   \<and> estimate_entropy db (replicate n 32) = Inr (Fin 0)"
proof -
  have a: "estimate_entropy db p = Inr (Fin 0)"
    if "list_all (\<lambda>c. \<not> islower db c \<and> \<not> isupper db c \<and> \<not> isdigit db c
        \<and> c \<notin> set punctuation) p" for p
  proof -
    from that have "char_pool db p = 0"
      by (auto simp: char_pool_zero_iff list_all_iff list_ex_iff)
    then show ?thesis by (simp add: estimate_entropy_def)
  qed
  have s: "\<not> islower db 32 \<and> \<not> isupper db 32 \<and> \<not> isdigit db 32 \<and> 32 \<notin> set punctuation"
    by (simp add: islower_def isupper_def isdigit_def punctuation_def ascii_def)
  have "estimate_entropy db (replicate n 32) = Inr (Fin 0)"
    using s by (intro a) (simp add: list_all_iff)
  moreover have "estimate_entropy db [] = Inr (Fin 0)"
    by (intro a) simp
  ultimately show ?thesis using a by blast
qed

theorem unclassified_password_zero_witness:
  "list_all (\<lambda>c. \<not> islower latin1_db c \<and> \<not> isupper latin1_db c \<and> \<not> isdigit latin1_db c
        \<and> c \<notin> set punctuation) [32, 215, 9]
   \<and> estimate_entropy latin1_db [32, 215, 9] = Inr (Fin 0)
   \<and> estimate_entropy latin1_db [32, 32] = Inr (Fin 0)"
proof -
  have h: "list_all (\<lambda>c. \<not> islower latin1_db c \<and> \<not> isupper latin1_db c \<and> \<not> isdigit latin1_db c
        \<and> c \<notin> set punctuation) [32, 215, 9]"
    by (simp add: islower_def isupper_def isdigit_def punctuation_def ascii_def)
  from unclassified_password_zero [of latin1_db "[32, 215, 9]" 2] h show ?thesis
    by (simp add: numeral_2_eq_2)
qed

subsection \<open>The entropy formula\<close>

lemma float_of_length:
  assumes "length p < 2 ^ 63"
  shows "float_of_int (int (length p)) = Inr (Fin (fl_real (real (length p))))"
proof -
  have "real (length p) < real (2 ^ 63)" using assms by (simp only: of_nat_less_iff)
  then have "real (length p) \<le> 2 ^ 63" by simp
  moreover have "(2::real) ^ 63 \<le> 2 ^ 1023" by simp
  ultimately have "real (length p) \<le> 2 ^ 1023" by linarith
  then have "fl (real (length p)) = Fin (fl_real (real (length p)))"
    by (intro fl_small) simp_all
  then show ?thesis by (simp add: float_of_int_def)
qed

lemma estimate_entropy_nonzero_pool:
  assumes "length p < 2 ^ 63" and "char_pool db p \<noteq> 0"
  shows "estimate_entropy db p =
    Inr (py_round2 (fmul (fl (log 2 (of_int (char_pool db p)))) (Fin (fl_real (real (length p))))))"
proof -
  have "0 < char_pool db p" using assms(2) char_pool_nonneg [of db p] by linarith
  then have "math_log2 (char_pool db p) = Inr (fl (log 2 (of_int (char_pool db p))))"
    using char_pool_less by (rule math_log2_small)
  then show ?thesis
    using assms(2) float_of_length [OF assms(1)] by (simp add: estimate_entropy_def)
qed

text \<open>
  C6. For every password whose pool \<open>P\<close> is not zero, \<open>estimate_entropy\<close> returns
  \<open>round(log2(P) * len(password), 2)\<close>, computed in floats: the logarithm, the length and
  their product are rounded to floats, and the product to two decimals. The pool only
  depends on which characters are present, not on how often or where. For every
  non-empty password of lowercase letters only the pool is 26, and for \<^verbatim>\<open>"aA1!"\<close> it is 94
  and the length 4. (A Python string is shorter than \<open>2 ^ 63\<close>.)
\<close>

theorem estimate_entropy_formula:
  assumes "length password < 2 ^ 63"
  shows
    "(char_pool db password \<noteq> 0 \<longrightarrow>
        estimate_entropy db password =
          Inr (py_round2 (fmul (fl (log 2 (of_int (char_pool db password))))
                 (Fin (fl_real (real (length password)))))))
     \<and> (\<forall>q. set q = set password \<longrightarrow> char_pool db q = char_pool db password)
     \<and> (password \<noteq> []
          \<and> list_all (\<lambda>c. islower db c \<and> \<not> isupper db c \<and> \<not> isdigit db c
                \<and> c \<notin> set punctuation) password \<longrightarrow>
        estimate_entropy db password =
          Inr (py_round2 (fmul (fl (log 2 26)) (Fin (fl_real (real (length password)))))))
     \<and> estimate_entropy db (ascii ''aA1!'') = Inr (py_round2 (fmul (fl (log 2 94)) (Fin 4)))"
proof (intro conjI impI allI)
  assume "char_pool db password \<noteq> 0"
  with assms show "estimate_entropy db password =
      Inr (py_round2 (fmul (fl (log 2 (of_int (char_pool db password))))
             (Fin (fl_real (real (length password))))))"
    by (rule estimate_entropy_nonzero_pool)
next
  fix q assume "set q = set password"
  then show "char_pool db q = char_pool db password" by (rule char_pool_presence)
next
  assume a: "password \<noteq> []
      \<and> list_all (\<lambda>c. islower db c \<and> \<not> isupper db c \<and> \<not> isdigit db c
            \<and> c \<notin> set punctuation) password"
  then have "char_pool db password = 26" by (intro char_pool_lowercase_only) simp_all
  with estimate_entropy_nonzero_pool [OF assms, of db]
  show "estimate_entropy db password =
      Inr (py_round2 (fmul (fl (log 2 26)) (Fin (fl_real (real (length password))))))"
    by simp
next
  have "length (ascii ''aA1!'') < 2 ^ 63" by (simp add: ascii_def)
  from estimate_entropy_nonzero_pool [OF this, of db]
  show "estimate_entropy db (ascii ''aA1!'') = Inr (py_round2 (fmul (fl (log 2 94)) (Fin 4)))"
    using fl_real_of_int [of 4] by (simp add: char_pool_all_classes) (simp add: ascii_def)
qed

theorem estimate_entropy_formula_witness:
  "length (ascii ''password'') < 2 ^ 63
   \<and> ascii ''password'' \<noteq> []
   \<and> list_all (\<lambda>c. islower latin1_db c \<and> \<not> isupper latin1_db c \<and> \<not> isdigit latin1_db c
         \<and> c \<notin> set punctuation) (ascii ''password'')
   \<and> char_pool latin1_db (ascii ''password'') = 26
   \<and> char_pool latin1_db (ascii ''drowssap'') = char_pool latin1_db (ascii ''password'')
   \<and> estimate_entropy latin1_db (ascii ''password'') =
        Inr (py_round2 (fmul (fl (log 2 26)) (Fin 8)))"
proof -
  have l: "length (ascii ''password'') < 2 ^ 63" by (simp add: ascii_def)
  have n: "ascii ''password'' \<noteq> []" by (simp add: ascii_def)
  have a: "list_all (\<lambda>c. islower latin1_db c \<and> \<not> isupper latin1_db c \<and> \<not> isdigit latin1_db c
         \<and> c \<notin> set punctuation) (ascii ''password'')"
    by (simp add: ascii_def islower_def isupper_def isdigit_def punctuation_def)
  have p: "char_pool latin1_db (ascii ''password'') = 26"
    using n a by (rule char_pool_lowercase_only)
  have s: "set (ascii ''drowssap'') = set (ascii ''password'')"
    by (auto simp: ascii_def)
  have e: "fl_real (real (length (ascii ''password''))) = 8"
    using fl_real_of_int [of 8] by (simp add: ascii_def)
  from estimate_entropy_formula [OF l, of latin1_db] l n a p s e show ?thesis
    by simp
qed

section \<open>Human-readable durations\<close>

lemma decimal_digits: "list_all (\<lambda>c. 48 \<le> c \<and> c \<le> 57) (decimal n)"
proof (induction n rule: decimal.induct)
  case (1 n)
  show ?case
  proof (cases "n < 10")
    case True
    then show ?thesis by (simp add: decimal.simps [of n])
  next
    case False
    with 1 have "list_all (\<lambda>c. 48 \<le> c \<and> c \<le> 57) (decimal (n div 10))" by simp
    moreover have "n mod 10 \<le> 9" by simp
    ultimately show ?thesis using False by (simp add: decimal.simps [of n])
  qed
qed

lemma length_decimal:
  assumes "n < 10 ^ d" and "0 < d"
  shows "length (decimal n) \<le> d"
  using assms
proof (induction n arbitrary: d rule: decimal.induct)
  case (1 n)
  show ?case
  proof (cases "n < 10")
    case True
    then show ?thesis using "1.prems" by (simp add: decimal.simps [of n])
  next
    case False
    from "1.prems" obtain d' where d: "d = Suc d'" by (cases d) auto
    have "0 < d'"
    proof (rule ccontr)
      assume "\<not> 0 < d'"
      with d "1.prems" False show False by simp
    qed
    moreover have "n div 10 < 10 ^ d'" using "1.prems"(1) d by (simp add: less_mult_imp_div_less mult.commute)
    ultimately have "length (decimal (n div 10)) \<le> d'" using False "1.IH" by simp
    then show ?thesis using False d by (simp add: decimal.simps [of n])
  qed
qed

lemma format_f_places:
  assumes "0 < d"
  shows "\<exists>i f. format_f d (Fin y) = i @ ascii ''.'' @ f \<and> length f = d
          \<and> list_all (\<lambda>c. 48 \<le> c \<and> c \<le> 57) f"
proof -
  define n where "n = nat (round_half_even (\<bar>y\<bar> * 10 ^ d))"
  define f where "f = zero_pad d (decimal (n mod 10 ^ d))"
  have "length (decimal (n mod 10 ^ d)) \<le> d"
    using assms by (intro length_decimal) simp_all
  then have "length f = d" by (simp add: f_def zero_pad_def)
  moreover have "list_all (\<lambda>c. 48 \<le> c \<and> c \<le> 57) f"
    using decimal_digits [of "n mod 10 ^ d"]
    by (auto simp: f_def zero_pad_def list_all_iff)
  moreover have "format_f d (Fin y) =
      ((if y < 0 then ascii ''-'' else []) @ decimal (n div 10 ^ d)) @ ascii ''.'' @ f"
    using assms by (simp add: n_def f_def Let_def)
  ultimately show ?thesis by blast
qed

lemma decimal_one_digit: "n < 10 \<Longrightarrow> decimal n = [48 + n]"
  by (simp add: decimal.simps [of n])

lemma decimal_500: "decimal 500 = ascii ''500''"
  by (simp add: decimal.simps [of 500] decimal.simps [of 50] decimal_one_digit ascii_def)

lemma format_f_1: "format_f 2 (Fin 1) = ascii ''1.00''"
  by (simp add: Let_def ascii_def zero_pad_def decimal_one_digit)

lemma format_f_half: "format_f 3 (Fin (1 / 2)) = ascii ''0.500''"
  by (simp add: Let_def zero_pad_def decimal_one_digit decimal_500) (simp add: ascii_def)

lemma human_time_unit_s:
  assumes "1 \<le> x" and "x < 60"
  shows "human_time (Fin x) = Inr (format_f 2 (Fin x) @ ascii '' s'')"
  using assms by (simp add: human_time_def fne_def feq_def)

text \<open>
  C9. \<open>human_time\<close> returns the infinity sign (U+221E) for not-a-number and for
  \<open>+infinity\<close>. Below one second it prints the seconds with three decimals and the unit
  \<open>s\<close>; from there on the unit is chosen by the half-open intervals with the bounds 60,
  3600, 86400 and 31536000, the quotient by the unit is printed with two decimals, and
  each bound belongs to the larger unit: \<open>human_time(60.0)\<close> is \<open>1.00 min\<close>, and likewise
  \<open>1.00 hr\<close>, \<open>1.00 days\<close> and \<open>1.00 years\<close>. (\<open>y\<close> is any finite float: \<open>format_f\<close>
  prints it with exactly the asked number of digits after the point.)
\<close>

theorem human_time_units:
  "human_time NaN = Inr [8734]
   \<and> human_time PInf = Inr [8734]
   \<and> (x < 1 \<longrightarrow> human_time (Fin x) = Inr (format_f 3 (Fin x) @ ascii '' s''))
   \<and> (1 \<le> x \<and> x < 60 \<longrightarrow> human_time (Fin x) = Inr (format_f 2 (Fin x) @ ascii '' s''))
   \<and> (60 \<le> x \<and> x < 3600 \<longrightarrow>
        human_time (Fin x) = Inr (format_f 2 (Fin (fl_real (x / 60))) @ ascii '' min''))
   \<and> (3600 \<le> x \<and> x < 86400 \<longrightarrow>
        human_time (Fin x) = Inr (format_f 2 (Fin (fl_real (x / 3600))) @ ascii '' hr''))
   \<and> (86400 \<le> x \<and> x < 31536000 \<longrightarrow>
        human_time (Fin x) = Inr (format_f 2 (Fin (fl_real (x / 86400))) @ ascii '' days''))
   \<and> (31536000 \<le> x \<and> x < 2 ^ 1024 \<longrightarrow>
        human_time (Fin x) = Inr (format_f 2 (Fin (fl_real (x / 31536000))) @ ascii '' years''))
   \<and> (\<exists>i f. format_f 3 (Fin y) = i @ ascii ''.'' @ f \<and> length f = 3
          \<and> list_all (\<lambda>c. 48 \<le> c \<and> c \<le> 57) f)
   \<and> (\<exists>i f. format_f 2 (Fin y) = i @ ascii ''.'' @ f \<and> length f = 2
          \<and> list_all (\<lambda>c. 48 \<le> c \<and> c \<le> 57) f)
   \<and> human_time (Fin 60) = Inr (ascii ''1.00 min'')
   \<and> human_time (Fin 3600) = Inr (ascii ''1.00 hr'')
   \<and> human_time (Fin 86400) = Inr (ascii ''1.00 days'')
   \<and> human_time (Fin 31536000) = Inr (ascii ''1.00 years'')"
proof -
  have b: "(60::real) < 2 ^ 1024" "(3600::real) < 2 ^ 1024" "(86400::real) < 2 ^ 1024"
      "(31536000::real) < 2 ^ 1024"
    by simp_all
  have q: "human_time (Fin x) = Inr (format_f 2 (Fin (fl_real (x / 60))) @ ascii '' min'')"
    if "60 \<le> x" "x < 3600" for x
  proof -
    have "x < 2 ^ 1024" using that(2) b(2) by linarith
    with that show ?thesis
      by (simp add: human_time_def fne_def feq_def fl_quotient del: format_f.simps)
  qed
  have h: "human_time (Fin x) = Inr (format_f 2 (Fin (fl_real (x / 3600))) @ ascii '' hr'')"
    if "3600 \<le> x" "x < 86400" for x
  proof -
    have "x < 2 ^ 1024" using that(2) b(3) by linarith
    with that show ?thesis
      by (simp add: human_time_def fne_def feq_def fl_quotient del: format_f.simps)
  qed
  have d: "human_time (Fin x) = Inr (format_f 2 (Fin (fl_real (x / 86400))) @ ascii '' days'')"
    if "86400 \<le> x" "x < 31536000" for x
  proof -
    have "x < 2 ^ 1024" using that(2) b(4) by linarith
    with that show ?thesis
      by (simp add: human_time_def fne_def feq_def fl_quotient del: format_f.simps)
  qed
  have y: "human_time (Fin x) = Inr (format_f 2 (Fin (fl_real (x / 31536000))) @ ascii '' years'')"
    if "31536000 \<le> x" "x < 2 ^ 1024" for x
    using that by (simp add: human_time_def fne_def feq_def fl_quotient del: format_f.simps)
  have "human_time NaN = Inr [8734]" "human_time PInf = Inr [8734]"
    by (simp_all add: human_time_def fne_def feq_def)
  moreover have "x < 1 \<longrightarrow> human_time (Fin x) = Inr (format_f 3 (Fin x) @ ascii '' s'')"
    by (simp add: human_time_def fne_def feq_def del: format_f.simps)
  moreover have "1 \<le> x \<and> x < 60 \<longrightarrow> human_time (Fin x) = Inr (format_f 2 (Fin x) @ ascii '' s'')"
    by (simp add: human_time_unit_s)
  moreover have "human_time (Fin 60) = Inr (ascii ''1.00 min'')"
    using q [of 60] by (simp add: fl_real_1 format_f_1 del: format_f.simps) (simp add: ascii_def)
  moreover have "human_time (Fin 3600) = Inr (ascii ''1.00 hr'')"
    using h [of 3600] by (simp add: fl_real_1 format_f_1 del: format_f.simps) (simp add: ascii_def)
  moreover have "human_time (Fin 86400) = Inr (ascii ''1.00 days'')"
    using d [of 86400] by (simp add: fl_real_1 format_f_1 del: format_f.simps) (simp add: ascii_def)
  moreover have "human_time (Fin 31536000) = Inr (ascii ''1.00 years'')"
    using y [of 31536000] b(4) by (simp add: fl_real_1 format_f_1 del: format_f.simps) (simp add: ascii_def)
  moreover have "\<exists>i f. format_f 3 (Fin y) = i @ ascii ''.'' @ f \<and> length f = 3
          \<and> list_all (\<lambda>c. 48 \<le> c \<and> c \<le> 57) f"
    by (rule format_f_places) simp
  moreover have "\<exists>i f. format_f 2 (Fin y) = i @ ascii ''.'' @ f \<and> length f = 2
          \<and> list_all (\<lambda>c. 48 \<le> c \<and> c \<le> 57) f"
    by (rule format_f_places) simp
  ultimately show ?thesis using q [of x] h [of x] d [of x] y [of x] by blast
qed

theorem human_time_units_witness:
  "human_time (Fin (1 / 2)) = Inr (ascii ''0.500 s'')
   \<and> human_time (Fin 30) = Inr (format_f 2 (Fin 30) @ ascii '' s'')
   \<and> human_time (Fin 120) = Inr (format_f 2 (Fin (fl_real 2)) @ ascii '' min'')
   \<and> human_time (Fin 7200) = Inr (format_f 2 (Fin (fl_real 2)) @ ascii '' hr'')
   \<and> human_time (Fin 172800) = Inr (format_f 2 (Fin (fl_real 2)) @ ascii '' days'')
   \<and> human_time (Fin 63072000) = Inr (format_f 2 (Fin (fl_real 2)) @ ascii '' years'')"
proof -
  have b: "(63072000::real) < 2 ^ 1024" by simp
  have "human_time (Fin (1 / 2)) = Inr (format_f 3 (Fin (1 / 2)) @ ascii '' s'')"
    using human_time_units [of "1 / 2"] by (simp del: format_f.simps)
  then have "human_time (Fin (1 / 2)) = Inr (ascii ''0.500 s'')"
    by (simp add: format_f_half del: format_f.simps) (simp add: ascii_def)
  moreover have "human_time (Fin 30) = Inr (format_f 2 (Fin 30) @ ascii '' s'')"
    using human_time_units [of 30] by (simp del: format_f.simps)
  moreover have "human_time (Fin 120) = Inr (format_f 2 (Fin (fl_real 2)) @ ascii '' min'')"
    using human_time_units [of 120] by (simp del: format_f.simps)
  moreover have "human_time (Fin 7200) = Inr (format_f 2 (Fin (fl_real 2)) @ ascii '' hr'')"
    using human_time_units [of 7200] by (simp del: format_f.simps)
  moreover have "human_time (Fin 172800) = Inr (format_f 2 (Fin (fl_real 2)) @ ascii '' days'')"
    using human_time_units [of 172800] by (simp del: format_f.simps)
  moreover have "human_time (Fin 63072000) = Inr (format_f 2 (Fin (fl_real 2)) @ ascii '' years'')"
    using human_time_units [of 63072000] b by (simp del: format_f.simps)
  ultimately show ?thesis by blast
qed

section \<open>Crack times\<close>

subsection \<open>Non-positive throughput\<close>

text \<open>
  C7. For every entropy (non-negative or not), every throughput \<open>ops_per_sec \<le> 0\<close>, both
  adversaries (\<open>classical_time_seconds\<close>, \<open>grover_time_seconds\<close>) and both settings of
  \<open>average\<close>, the crack time is \<open>+infinity\<close>.
\<close>

theorem nonpositive_ops_infinite:
  assumes "fle ops_per_sec (Fin 0)"
  shows "classical_time_seconds entropy_bits ops_per_sec average = Inr PInf
       \<and> grover_time_seconds entropy_bits ops_per_sec average = Inr PInf"
  using assms by (simp add: classical_time_seconds_def grover_time_seconds_def)

theorem nonpositive_ops_infinite_witness:
  "fle (Fin (- 3)) (Fin 0)
   \<and> classical_time_seconds (Fin 40) (Fin (- 3)) True = Inr PInf
   \<and> grover_time_seconds (Fin 40) (Fin (- 3)) False = Inr PInf"
  using nonpositive_ops_infinite [of "Fin (- 3)" "Fin 40" True]
    nonpositive_ops_infinite [of "Fin (- 3)" "Fin 40" False]
  by simp

subsection \<open>Overflow of the search space\<close>

lemma classical_time_seconds_cases:
  assumes "\<not> fle ops (Fin 0)"
  shows "(py_pow2 e = Inl OverflowError \<and> classical_time_seconds e ops avg = Inl OverflowError)
       \<or> (\<exists>p t. py_pow2 e = Inr p \<and> classical_time_seconds e ops avg = Inr t)"
proof -
  from assms have nz: "ops \<noteq> Fin 0" by (rule not_fle_0_nonzero)
  from py_pow2_cases [of e] show ?thesis
  proof
    assume "py_pow2 e = Inl OverflowError"
    then show ?thesis using assms by (simp add: classical_time_seconds_def)
  next
    assume "\<exists>p. py_pow2 e = Inr p"
    then obtain p where p: "py_pow2 e = Inr p" ..
    from fdiv_returns [OF nz] obtain full where f: "fdiv p ops = Inr full" ..
    from fdiv_returns [of "Fin 2" full] obtain t where t: "fdiv full (Fin 2) = Inr t" by auto
    from p f t assms show ?thesis
      by (simp add: classical_time_seconds_def)
  qed
qed

lemma grover_time_seconds_cases:
  assumes "\<not> fle ops (Fin 0)"
  shows "\<exists>h. fdiv e (Fin 2) = Inr h \<and>
         ((py_pow2 h = Inl OverflowError \<and> grover_time_seconds e ops avg = Inl OverflowError)
          \<or> (\<exists>p t. py_pow2 h = Inr p \<and> grover_time_seconds e ops avg = Inr t))"
proof -
  from assms have nz: "ops \<noteq> Fin 0" by (rule not_fle_0_nonzero)
  from fdiv_returns [of "Fin 2" e] obtain h where h: "fdiv e (Fin 2) = Inr h" by auto
  from py_pow2_cases [of h] have
    "(py_pow2 h = Inl OverflowError \<and> grover_time_seconds e ops avg = Inl OverflowError)
          \<or> (\<exists>p t. py_pow2 h = Inr p \<and> grover_time_seconds e ops avg = Inr t)"
  proof
    assume "py_pow2 h = Inl OverflowError"
    then show ?thesis using assms h by (simp add: grover_time_seconds_def)
  next
    assume "\<exists>p. py_pow2 h = Inr p"
    then obtain p where p: "py_pow2 h = Inr p" ..
    from fdiv_returns [OF nz] obtain full where f: "fdiv p ops = Inr full" ..
    from fdiv_returns [of "Fin 2" full] obtain t where t: "fdiv full (Fin 2) = Inr t" by auto
    from p f t h assms show ?thesis
      by (simp add: grover_time_seconds_def)
  qed
  with h show ?thesis by blast
qed

lemma classical_overflow_iff:
  "classical_time_seconds e ops avg = Inl OverflowError \<longleftrightarrow>
     \<not> fle ops (Fin 0) \<and> (\<exists>x. e = Fin x \<and> overflow_threshold \<le> 2 powr x)"
proof (cases "fle ops (Fin 0)")
  case True
  then show ?thesis by (simp add: classical_time_seconds_def)
next
  case False
  from classical_time_seconds_cases [OF False, of e avg] False show ?thesis
    by (auto simp: py_pow2_overflow_iff [symmetric])
qed

lemma grover_overflow_iff:
  "grover_time_seconds e ops avg = Inl OverflowError \<longleftrightarrow>
     \<not> fle ops (Fin 0) \<and> (\<exists>x h. e = Fin x \<and> fl (x / 2) = Fin h \<and> overflow_threshold \<le> 2 powr h)"
proof (cases "fle ops (Fin 0)")
  case True
  then show ?thesis by (simp add: grover_time_seconds_def)
next
  case False
  from grover_time_seconds_cases [OF False, of e avg]
  obtain h where h: "fdiv e (Fin 2) = Inr h"
    and c: "(py_pow2 h = Inl OverflowError \<and> grover_time_seconds e ops avg = Inl OverflowError)
          \<or> (\<exists>p t. py_pow2 h = Inr p \<and> grover_time_seconds e ops avg = Inr t)"
    by blast
  have "py_pow2 h = Inl OverflowError \<longleftrightarrow>
      (\<exists>x h'. e = Fin x \<and> fl (x / 2) = Fin h' \<and> overflow_threshold \<le> 2 powr h')"
    using h by (cases e) (auto simp: py_pow2_overflow_iff fdiv_by_2)
  with c False show ?thesis by auto
qed

lemma classical_no_other_error:
  "classical_time_seconds e ops avg \<notin> {Inl ValueError, Inl ZeroDivisionError}"
proof (cases "fle ops (Fin 0)")
  case True
  then show ?thesis by (simp add: classical_time_seconds_def)
next
  case False
  from classical_time_seconds_cases [OF False, of e avg] show ?thesis by auto
qed

lemma grover_no_other_error:
  "grover_time_seconds e ops avg \<notin> {Inl ValueError, Inl ZeroDivisionError}"
proof (cases "fle ops (Fin 0)")
  case True
  then show ?thesis by (simp add: grover_time_seconds_def)
next
  case False
  from grover_time_seconds_cases [OF False, of e avg] show ?thesis by auto
qed

text \<open>
  C1 as stated fails: with an entropy of 1024 bits and one operation per second, \<open>2 ** 1024.0\<close> raises
  \<^verbatim>\<open>OverflowError\<close> in \<open>classical_time_seconds\<close>; nothing is returned, no infinity either.
\<close>

theorem classical_overflow_cex:
  "classical_time_seconds (Fin 1024) (Fin 1) True = Inl OverflowError"
  using pow2_ge_threshold [of 1024] by (simp add: classical_overflow_iff)

text \<open>
  C1, as amended. For every entropy and every throughput the two functions raise neither
  \<^verbatim>\<open>ValueError\<close> nor \<^verbatim>\<open>ZeroDivisionError\<close>, but they do raise \<^verbatim>\<open>OverflowError\<close>.
  \<open>classical_time_seconds\<close> raises it exactly when \<open>ops_per_sec \<le> 0\<close> is false, the
  entropy is finite and \<open>2 ^ entropy_bits\<close> is at least \<open>overflow_threshold\<close>, the least
  real that rounds beyond the floats; \<open>grover_time_seconds\<close> exactly when
  \<open>ops_per_sec \<le> 0\<close> is false, the entropy is finite, its float half \<open>h\<close> is finite and
  \<open>2 ^ h\<close> is at least \<open>overflow_threshold\<close>. In particular, when \<open>ops_per_sec \<le> 0\<close> is
  false, \<open>classical_time_seconds\<close> raises for every finite entropy of 1024 bits or more;
  and for every entropy from 0 to 1023 bits and every throughput it returns a float.
\<close>

theorem crack_time_raises_overflow_only:
  "(classical_time_seconds e ops avg = Inl OverflowError \<longleftrightarrow>
      \<not> fle ops (Fin 0) \<and> (\<exists>x. e = Fin x \<and> overflow_threshold \<le> 2 powr x))
   \<and> (grover_time_seconds e ops avg = Inl OverflowError \<longleftrightarrow>
      \<not> fle ops (Fin 0)
      \<and> (\<exists>x h. e = Fin x \<and> fl (x / 2) = Fin h \<and> overflow_threshold \<le> 2 powr h))
   \<and> classical_time_seconds e ops avg \<notin> {Inl ValueError, Inl ZeroDivisionError}
   \<and> grover_time_seconds e ops avg \<notin> {Inl ValueError, Inl ZeroDivisionError}
   \<and> (\<forall>x. 1024 \<le> x \<and> \<not> fle ops (Fin 0) \<longrightarrow>
         classical_time_seconds (Fin x) ops avg = Inl OverflowError)
   \<and> (\<forall>x. 0 \<le> x \<and> x \<le> 1023 \<longrightarrow> (\<exists>t. classical_time_seconds (Fin x) ops avg = Inr t))"
proof (intro conjI allI impI)
  show "classical_time_seconds e ops avg = Inl OverflowError \<longleftrightarrow>
      \<not> fle ops (Fin 0) \<and> (\<exists>x. e = Fin x \<and> overflow_threshold \<le> 2 powr x)"
    by (rule classical_overflow_iff)
  show "grover_time_seconds e ops avg = Inl OverflowError \<longleftrightarrow>
      \<not> fle ops (Fin 0)
      \<and> (\<exists>x h. e = Fin x \<and> fl (x / 2) = Fin h \<and> overflow_threshold \<le> 2 powr h)"
    by (rule grover_overflow_iff)
  show "classical_time_seconds e ops avg \<notin> {Inl ValueError, Inl ZeroDivisionError}"
    by (rule classical_no_other_error)
  show "grover_time_seconds e ops avg \<notin> {Inl ValueError, Inl ZeroDivisionError}"
    by (rule grover_no_other_error)
next
  fix x :: real
  assume "1024 \<le> x \<and> \<not> fle ops (Fin 0)"
  then show "classical_time_seconds (Fin x) ops avg = Inl OverflowError"
    using pow2_ge_threshold [of x] by (simp add: classical_overflow_iff)
next
  fix x :: real
  assume x: "0 \<le> x \<and> x \<le> 1023"
  show "\<exists>t. classical_time_seconds (Fin x) ops avg = Inr t"
  proof (cases "fle ops (Fin 0)")
    case True
    then show ?thesis by (simp add: classical_time_seconds_def)
  next
    case False
    have "py_pow2 (Fin x) \<noteq> Inl OverflowError"
      unfolding py_pow2_overflow_iff using x pow2_lt_threshold [of x] by simp
    with classical_time_seconds_cases [OF False, of "Fin x" avg] show ?thesis by auto
  qed
qed

theorem crack_time_raises_overflow_only_witness:
  "classical_time_seconds (Fin 2000) (Fin 5) False = Inl OverflowError
   \<and> (\<exists>t. classical_time_seconds (Fin 40) (Fin 5) False = Inr t)"
  using crack_time_raises_overflow_only [of "Fin 2000" "Fin 5" False]
    crack_time_raises_overflow_only [of "Fin 40" "Fin 5" False]
  by simp

subsection \<open>The sign of a crack time\<close>

lemma crack_time_tail_nonneg:
  assumes "p = NaN \<or> p = PInf \<or> (\<exists>v. p = Fin v \<and> 0 \<le> v)" and "\<not> fle ops (Fin 0)"
  shows "\<exists>t. pybind (fdiv p ops) (\<lambda>full. if avg then fdiv full (Fin 2) else Inr full) = Inr t
          \<and> (t = NaN \<or> t = PInf \<or> (\<exists>v. t = Fin v \<and> 0 \<le> v))"
proof -
  from fdiv_nonneg [OF assms] obtain full where f: "fdiv p ops = Inr full"
    and fn: "full = NaN \<or> full = PInf \<or> (\<exists>v. full = Fin v \<and> 0 \<le> v)" by blast
  have "\<not> fle (Fin 2) (Fin 0)" by simp
  from fdiv_nonneg [OF fn this] f fn show ?thesis by (cases avg) auto
qed

lemma classical_nonneg:
  assumes "classical_time_seconds e ops avg = Inr t"
  shows "t = NaN \<or> t = PInf \<or> (\<exists>v. t = Fin v \<and> 0 \<le> v)"
proof (cases "fle ops (Fin 0)")
  case True
  with assms show ?thesis by (simp add: classical_time_seconds_def)
next
  case False
  from py_pow2_cases [of e] show ?thesis
  proof
    assume "py_pow2 e = Inl OverflowError"
    with assms False show ?thesis by (simp add: classical_time_seconds_def)
  next
    assume "\<exists>p. py_pow2 e = Inr p"
    then obtain p where p: "py_pow2 e = Inr p" ..
    from crack_time_tail_nonneg [OF py_pow2_nonneg [OF p] False, of avg] p assms False
    show ?thesis by (auto simp: classical_time_seconds_def)
  qed
qed

lemma grover_nonneg:
  assumes "grover_time_seconds e ops avg = Inr t"
  shows "t = NaN \<or> t = PInf \<or> (\<exists>v. t = Fin v \<and> 0 \<le> v)"
proof (cases "fle ops (Fin 0)")
  case True
  with assms show ?thesis by (simp add: grover_time_seconds_def)
next
  case False
  from fdiv_returns [of "Fin 2" e] obtain h where h: "fdiv e (Fin 2) = Inr h" by auto
  from py_pow2_cases [of h] show ?thesis
  proof
    assume "py_pow2 h = Inl OverflowError"
    with assms False h show ?thesis by (simp add: grover_time_seconds_def)
  next
    assume "\<exists>p. py_pow2 h = Inr p"
    then obtain p where p: "py_pow2 h = Inr p" ..
    from crack_time_tail_nonneg [OF py_pow2_nonneg [OF p] False, of avg] p h assms False
    show ?thesis by (auto simp: grover_time_seconds_def)
  qed
qed

lemma classical_returns:
  assumes "x \<le> 1023"
  shows "\<exists>t. classical_time_seconds (Fin x) ops avg = Inr t"
proof (cases "fle ops (Fin 0)")
  case True
  then show ?thesis by (simp add: classical_time_seconds_def)
next
  case False
  have "py_pow2 (Fin x) \<noteq> Inl OverflowError"
    unfolding py_pow2_overflow_iff using assms pow2_lt_threshold [of x] by simp
  with classical_time_seconds_cases [OF False, of "Fin x" avg] show ?thesis by auto
qed

lemma grover_returns:
  assumes "0 \<le> x" and "x \<le> 2 ^ 10"
  shows "\<exists>t. grover_time_seconds (Fin x) ops avg = Inr t"
proof (cases "fle ops (Fin 0)")
  case True
  then show ?thesis by (simp add: grover_time_seconds_def)
next
  case False
  have le: "x / 2 \<le> 2 ^ 9" using assms(2) by simp
  have "fl_real (x / 2) \<le> 2 ^ 9" using assms(1) le by (intro fl_real_le_nat) simp_all
  then have h: "fl_real (x / 2) \<le> 1023" by simp
  have "x / 2 \<le> 2 ^ 1023" using le by (rule order_trans) simp
  then have f: "fl (x / 2) = Fin (fl_real (x / 2))" using assms(1) by (intro fl_small) simp_all
  have "py_pow2 (Fin (fl_real (x / 2))) \<noteq> Inl OverflowError"
    unfolding py_pow2_overflow_iff using pow2_lt_threshold [OF h] by simp
  with grover_time_seconds_cases [OF False, of "Fin x" avg] f show ?thesis by auto
qed

subsection \<open>Quantum against classical time\<close>

text \<open>The division by the throughput and the halving, for a positive throughput.\<close>

lemma crack_tail_mono:
  assumes "0 \<le> b" and "b \<le> a" and "0 < r"
  shows "\<exists>q c.
      pybind (fdiv (Fin b) (Fin r)) (\<lambda>full. if avg then fdiv full (Fin 2) else Inr full) = Inr q
    \<and> pybind (fdiv (Fin a) (Fin r)) (\<lambda>full. if avg then fdiv full (Fin 2) else Inr full) = Inr c
    \<and> fle q c"
proof -
  have a: "0 \<le> a" using assms by linarith
  have br: "0 \<le> b / r" and ar: "0 \<le> a / r" and le: "b / r \<le> a / r"
    using assms a by (simp_all add: divide_right_mono)
  have m: "fl_real (b / r) \<le> fl_real (a / r)" using br le by (rule fl_real_mono)
  have nb: "0 \<le> fl_real (b / r)" and na: "0 \<le> fl_real (a / r)"
    using br ar by (simp_all add: fl_real_nonneg)
  show ?thesis
  proof (cases avg)
    case False
    with fl_mono [OF br le] assms(3) show ?thesis by simp
  next
    case True
    have h: "fl_real (b / r) / 2 \<le> fl_real (a / r) / 2" using m by simp
    have hb: "0 \<le> fl_real (b / r) / 2" using nb by simp
    from fl_mono [OF hb h] have
      "fle (fl (fl_real (b / r) / 2)) (fl (fl_real (a / r) / 2))" .
    moreover have "fle (fl (fl_real (b / r) / 2)) PInf"
      using fl_nonneg_eq [OF hb] by simp
    ultimately show ?thesis
      using True assms(3) le by (simp add: fl_nonneg_eq [OF br] fl_nonneg_eq [OF ar])
  qed
qed

lemma crack_tail_inf:
  "pybind (fdiv (Fin p) PInf) (\<lambda>full. if avg then fdiv full (Fin 2) else Inr full) = Inr (Fin 0)"
  by (simp add: fl_0)

lemma grover_half:
  assumes "0 \<le> x" and "x < 1024"
  shows "fdiv (Fin x) (Fin 2) = Inr (Fin (fl_real (x / 2)))"
proof -
  have "x / 2 \<le> 2 ^ 1023"
  proof -
    have "x / 2 \<le> 2 ^ 9" using assms(2) by simp
    then show ?thesis by (rule order_trans) simp
  qed
  with assms(1) have "fl (x / 2) = Fin (fl_real (x / 2))" by (intro fl_small) simp_all
  then show ?thesis by simp
qed

lemma classical_Fin:
  assumes "0 < r" and "\<not> overflow_threshold \<le> 2 powr x"
  shows "classical_time_seconds (Fin x) (Fin r) avg =
     pybind (fdiv (Fin (fl_real (2 powr x))) (Fin r))
       (\<lambda>full. if avg then fdiv full (Fin 2) else Inr full)"
  using assms by (simp add: classical_time_seconds_def py_pow2_Fin del: fdiv.simps py_pow2.simps)

lemma grover_Fin:
  assumes "0 < r" and "0 \<le> x" and "x < 1024"
    and "\<not> overflow_threshold \<le> 2 powr fl_real (x / 2)"
  shows "grover_time_seconds (Fin x) (Fin r) avg =
     pybind (fdiv (Fin (fl_real (2 powr fl_real (x / 2)))) (Fin r))
       (\<lambda>full. if avg then fdiv full (Fin 2) else Inr full)"
  using assms grover_half [OF assms(2,3)]
  by (simp add: grover_time_seconds_def py_pow2_Fin del: fdiv.simps py_pow2.simps)

lemma quantum_le_classical_fin:
  assumes "0 \<le> x" and "0 < r" and "classical_time_seconds (Fin x) (Fin r) avg = Inr c"
  shows "\<exists>q. grover_time_seconds (Fin x) (Fin r) avg = Inr q \<and> fle q c"
proof -
  have nf: "\<not> fle (Fin r) (Fin 0)" using assms(2) by simp
  have "classical_time_seconds (Fin x) (Fin r) avg \<noteq> Inl OverflowError"
    using assms(3) by simp
  then have no: "\<not> overflow_threshold \<le> 2 powr x"
    unfolding classical_overflow_iff using nf by simp
  then have x: "x < 1024" by (rule pow2_lt_threshold_imp)
  define h where "h = fl_real (x / 2)"
  have hx: "h \<le> x" unfolding h_def using assms(1) by (rule fl_real_half_le)
  then have le: "(2::real) powr h \<le> 2 powr x" by simp
  with no have noh: "\<not> overflow_threshold \<le> 2 powr h" by linarith
  have m: "fl_real (2 powr h) \<le> fl_real (2 powr x)" using le by (intro fl_real_mono) simp_all
  have n: "0 \<le> fl_real (2 powr h)" by (intro fl_real_nonneg) simp
  from crack_tail_mono [OF n m assms(2), of avg] obtain q c' where
    q: "pybind (fdiv (Fin (fl_real (2 powr h))) (Fin r))
          (\<lambda>full. if avg then fdiv full (Fin 2) else Inr full) = Inr q"
    and c': "pybind (fdiv (Fin (fl_real (2 powr x))) (Fin r))
          (\<lambda>full. if avg then fdiv full (Fin 2) else Inr full) = Inr c'"
    and qc: "fle q c'" by blast
  have "classical_time_seconds (Fin x) (Fin r) avg = Inr c'"
    using c' nf no by (simp add: classical_time_seconds_def py_pow2_Fin del: fdiv.simps py_pow2.simps)
  with assms(3) have "c' = c" by simp
  moreover have "grover_time_seconds (Fin x) (Fin r) avg = Inr q"
    using q nf noh grover_half [OF assms(1) x]
    by (simp add: grover_time_seconds_def py_pow2_Fin h_def del: fdiv.simps py_pow2.simps)
  ultimately show ?thesis using qc by blast
qed

lemma quantum_le_classical_inf:
  assumes "0 \<le> x" and "classical_time_seconds (Fin x) PInf avg = Inr c"
  shows "\<exists>q. grover_time_seconds (Fin x) PInf avg = Inr q \<and> fle q c"
proof -
  have "classical_time_seconds (Fin x) PInf avg \<noteq> Inl OverflowError"
    using assms(2) by simp
  then have no: "\<not> overflow_threshold \<le> 2 powr x"
    unfolding classical_overflow_iff by simp
  then have x: "x < 1024" by (rule pow2_lt_threshold_imp)
  define h where "h = fl_real (x / 2)"
  have hx: "h \<le> x" unfolding h_def using assms(1) by (rule fl_real_half_le)
  then have le: "(2::real) powr h \<le> 2 powr x" by simp
  with no have noh: "\<not> overflow_threshold \<le> 2 powr h" by linarith
  have "classical_time_seconds (Fin x) PInf avg = Inr (Fin 0)"
    using no crack_tail_inf [of "fl_real (2 powr x)" avg]
    by (simp add: classical_time_seconds_def py_pow2_Fin del: fdiv.simps py_pow2.simps)
  moreover have "grover_time_seconds (Fin x) PInf avg = Inr (Fin 0)"
    using noh grover_half [OF assms(1) x] crack_tail_inf [of "fl_real (2 powr h)" avg]
    by (simp add: grover_time_seconds_def py_pow2_Fin h_def del: fdiv.simps py_pow2.simps)
  ultimately show ?thesis using assms(2) by auto
qed

lemma quantum_eq_classical_zero:
  "grover_time_seconds (Fin 0) ops avg = classical_time_seconds (Fin 0) ops avg"
  by (simp add: grover_time_seconds_def classical_time_seconds_def fl_0)

lemma crack_tail_strict:
  assumes "0 \<le> b" and "b + 2 powr of_int i \<le> a" and "a \<le> 2 powr of_int (i + 4)"
    and "0 < r" and "r < 2 ^ 1024" and "- 4 \<le> i"
    and "pybind (fdiv (Fin a) (Fin r)) (\<lambda>full. if avg then fdiv full (Fin 2) else Inr full)
          = Inr (Fin c)"
  shows "\<exists>q. pybind (fdiv (Fin b) (Fin r)) (\<lambda>full. if avg then fdiv full (Fin 2) else Inr full)
          = Inr (Fin q) \<and> q < c"
proof -
  define w where "w = 2 powr of_int i / r"
  define j where "j = \<lfloor>log 2 w\<rfloor>"
  have w: "0 < w" using assms(4) by (simp add: w_def)
  have a: "0 < a" using assms(1,2) pow2_pos [of "of_int i"] by linarith
  have j1: "2 powr of_int j \<le> w" unfolding j_def using w by (rule pow2_floor_log2)
  have j2: "w < 2 powr of_int (j + 1)"
    using w floor_log_eq_powr_iff [of w 2 j] by (simp add: j_def)
  have "(2::real) powr of_int (- 1028) = 2 powr of_int (- 4) / 2 ^ 1024"
    by (simp add: powr_minus_divide)
  also have "\<dots> \<le> 2 powr of_int i / 2 ^ 1024"
    using assms(6) by (intro divide_right_mono powr_mono) simp_all
  also have "\<dots> \<le> w" unfolding w_def using assms(4,5) by (intro divide_left_mono) simp_all
  finally have "2 powr of_int (- 1028) \<le> w" .
  then have "log 2 (2 powr of_int (- 1028)) \<le> log 2 w" using w by (intro log_mono) simp_all
  then have "of_int (- 1028) \<le> log 2 w" by simp
  then have j: "- 1028 \<le> j" unfolding j_def by (simp add: le_floor_iff)
  have p1: "(2::real) powr of_int j = 2 * 2 powr of_int (j - 1)"
    by (simp add: powr_diff)
  have br: "0 \<le> b / r" and ar: "0 \<le> a / r" using assms(1,4) a by simp_all
  have "b / r + w = (b + 2 powr of_int i) / r" by (simp add: w_def add_divide_distrib)
  also have "\<dots> \<le> a / r" using assms(2,4) by (intro divide_right_mono) simp_all
  finally have "b / r + 2 powr of_int j \<le> a / r" using j1 by linarith
  then have s1: "b / r + 2 * 2 powr of_int (j - 1) \<le> a / r" by (simp only: p1)
  have "a / r \<le> 2 powr of_int (i + 4) / r" using assms(3,4) by (intro divide_right_mono) simp_all
  also have "\<dots> = 2 ^ 4 * w" by (simp add: w_def powr_add)
  also have "\<dots> < 2 ^ 4 * 2 powr of_int (j + 1)" using j2 by simp
  also have "\<dots> = 2 powr of_int (j - 1 + 6)" by (simp add: powr_add powr_diff)
  finally have y1: "a / r < 2 powr of_int (j - 1 + 6)" .
  also have "\<dots> \<le> 2 powr of_int (j - 1 + 53)" by (intro powr_mono) simp_all
  finally have y1': "a / r < 2 powr of_int (j - 1 + 53)" .
  define q1 where "q1 = fl_real (b / r)"
  define c1 where "c1 = fl_real (a / r)"
  have sep1: "q1 + 2 powr of_int (j - 1) \<le> c1" unfolding q1_def c1_def
    using br s1 y1' j by (intro fl_real_separated) simp_all
  have c1: "c1 \<le> 2 powr of_int (j - 1 + 6)" unfolding c1_def
    using a assms(4) y1 j by (intro fl_real_le_pow2) simp_all
  have q1: "0 \<le> q1" unfolding q1_def using br by (rule fl_real_nonneg)
  have lt1: "q1 < c1" using sep1 pow2_pos [of "of_int (j - 1)"] by linarith
  have le: "b / r \<le> a / r" using s1 pow2_pos [of "of_int (j - 1)"] by linarith
  have na: "\<not> overflow_threshold \<le> a / r"
  proof
    assume "overflow_threshold \<le> a / r"
    then have "fl (a / r) = PInf" by (simp add: fl_overflow_iff)
    with assms(4,7) show False by (cases avg) simp_all
  qed
  then have nb: "\<not> overflow_threshold \<le> b / r" using le by linarith
  have fa: "fl (a / r) = Fin c1" using na by (simp add: fl_nonneg_eq [OF ar] c1_def)
  have fb: "fl (b / r) = Fin q1" using nb by (simp add: fl_nonneg_eq [OF br] q1_def)
  show ?thesis
  proof (cases avg)
    case False
    with assms(4,7) fa have "c = c1" by simp
    with False assms(4) fb lt1 show ?thesis by simp
  next
    case True
    have hq: "0 \<le> q1 / 2" and hc: "0 \<le> c1 / 2" using q1 lt1 by simp_all
    have nc: "\<not> overflow_threshold \<le> c1 / 2"
    proof
      assume "overflow_threshold \<le> c1 / 2"
      then have "fl (c1 / 2) = PInf" by (simp add: fl_overflow_iff)
      with assms(4,7) fa True show False by simp
    qed
    then have nq: "\<not> overflow_threshold \<le> q1 / 2" using lt1 by linarith
    have c: "c = fl_real (c1 / 2)"
      using assms(4,7) fa True nc by (simp add: fl_nonneg_eq [OF hc])
    have p2: "(2::real) powr of_int (j - 1) = 4 * 2 powr of_int (j - 1 - 2)"
      by (simp add: powr_diff)
    have s2: "q1 / 2 + 2 * 2 powr of_int (j - 1 - 2) \<le> c1 / 2"
      using sep1 unfolding p2 by linarith
    have "c1 / 2 \<le> 2 powr of_int (j - 1 + 6) / 2" using c1 by simp
    also have "\<dots> = 2 powr of_int (j - 1 - 2 + 7)" by (simp add: powr_add powr_diff)
    also have "\<dots> < 2 powr of_int (j - 1 - 2 + 53)" by (intro powr_less_mono) simp_all
    finally have y2: "c1 / 2 < 2 powr of_int (j - 1 - 2 + 53)" .
    have "fl_real (q1 / 2) + 2 powr of_int (j - 1 - 2) \<le> fl_real (c1 / 2)"
      using hq s2 y2 j by (intro fl_real_separated) simp_all
    then have "fl_real (q1 / 2) < c" using pow2_pos [of "of_int (j - 1 - 2)"] c by linarith
    then show ?thesis
      using True assms(4) fb nq by (simp add: fl_nonneg_eq [OF hq])
  qed
qed

lemma quantum_lt_classical:
  assumes "1 \<le> x" and "0 < r" and "r < 2 ^ 1024"
    and "classical_time_seconds (Fin x) (Fin r) avg = Inr (Fin c)"
  shows "\<exists>q. grover_time_seconds (Fin x) (Fin r) avg = Inr (Fin q) \<and> q < c"
proof -
  have nf: "\<not> fle (Fin r) (Fin 0)" using assms(2) by simp
  have "classical_time_seconds (Fin x) (Fin r) avg \<noteq> Inl OverflowError"
    using assms(4) by simp
  then have no: "\<not> overflow_threshold \<le> 2 powr x"
    unfolding classical_overflow_iff using nf by simp
  then have x: "x < 1024" by (rule pow2_lt_threshold_imp)
  have x0: "0 \<le> x" using assms(1) by simp
  define h where "h = fl_real (x / 2)"
  have "h \<le> x" unfolding h_def using x0 by (rule fl_real_half_le)
  then have "(2::real) powr h \<le> 2 powr x" by simp
  with no have noh: "\<not> overflow_threshold \<le> 2 powr h" by linarith
  define i where "i = \<lfloor>x\<rfloor> - 3"
  from pow2_step [OF assms(1) x] have
    s: "fl_real (2 powr h) + 2 powr of_int i \<le> fl_real (2 powr x)"
    and u: "fl_real (2 powr x) \<le> 2 powr of_int (i + 4)"
    by (simp_all add: h_def i_def)
  have i: "- 4 \<le> i" using assms(1) unfolding i_def by linarith
  have n: "0 \<le> fl_real (2 powr h)" by (intro fl_real_nonneg) simp
  have "pybind (fdiv (Fin (fl_real (2 powr x))) (Fin r))
       (\<lambda>full. if avg then fdiv full (Fin 2) else Inr full) = Inr (Fin c)"
    using assms(4) classical_Fin [OF assms(2) no, of avg] by simp
  from crack_tail_strict [OF n s u assms(2,3) i this]
  obtain q where "pybind (fdiv (Fin (fl_real (2 powr h))) (Fin r))
       (\<lambda>full. if avg then fdiv full (Fin 2) else Inr full) = Inr (Fin q)" and "q < c"
    by blast
  then show ?thesis
    using grover_Fin [OF assms(2) x0 x, of avg] noh by (auto simp: h_def)
qed

lemma crack_tail_one: 
  "pybind (fdiv (Fin 1) (Fin 1)) (\<lambda>full. if True then fdiv full (Fin 2) else Inr full)
     = Inr (Fin (1 / 2))"
  by (simp add: fl_1 fl_half)

lemma classical_finite:
  assumes "0 \<le> x" and "x \<le> 1000" and "1 \<le> r"
  shows "\<exists>c. classical_time_seconds (Fin x) (Fin r) avg = Inr (Fin c)"
proof -
  have r: "0 < r" using assms(3) by linarith
  have "x \<le> 1023" using assms(2) by linarith
  then have no: "\<not> overflow_threshold \<le> 2 powr x" by (rule pow2_lt_threshold)
  define a where "a = fl_real (2 powr x)"
  have "(2::real) powr x \<le> 2 powr 1000" using assms(2) by (intro powr_mono) simp_all
  then have p: "(2::real) powr x \<le> 2 ^ 1000" by simp
  have a: "a \<le> 2 ^ 1000" unfolding a_def by (rule fl_real_le_nat [OF _ p]) simp
  have a0: "0 \<le> a" unfolding a_def by (rule fl_real_nonneg) simp
  have "a / r \<le> a / 1" using a0 assms(3) by (intro divide_left_mono) simp_all
  then have "a / r \<le> a" by simp
  then have ar: "a / r \<le> 2 ^ 1000" using a by (rule order_trans)
  have ar0: "0 \<le> a / r" using a0 r by simp
  define c1 where "c1 = fl_real (a / r)"
  have c1: "c1 \<le> 2 ^ 1000" unfolding c1_def using ar0 ar by (rule fl_real_le_nat)
  have c10: "0 \<le> c1" unfolding c1_def using ar0 by (rule fl_real_nonneg)
  have "a / r \<le> 2 ^ 1023" using ar by (rule order_trans) simp
  with ar0 have f1: "fl (a / r) = Fin c1" unfolding c1_def by (rule fl_small)
  have "c1 / 2 \<le> c1" using c10 by simp
  then have "c1 / 2 \<le> 2 ^ 1000" using c1 by (rule order_trans)
  then have "c1 / 2 \<le> 2 ^ 1023" by (rule order_trans) simp
  moreover have "0 \<le> c1 / 2" using c10 by simp
  ultimately have f2: "fl (c1 / 2) = Fin (fl_real (c1 / 2))" by (intro fl_small)
  show ?thesis
    using classical_Fin [OF r no, of avg] f1 f2 r by (cases avg) (simp_all add: a_def)
qed

text \<open>
  C8 as stated fails: with the positive entropy \<open>2 ^ -60\<close> bits and one operation per
  second, \<open>2 ** entropy_bits\<close> and \<open>2 ** (entropy_bits / 2)\<close> both round to \<open>1.0\<close>, and the
  quantum and the classical time are the same half second: not strictly less.
\<close>

theorem tiny_entropy_equal_cex:
  "classical_time_seconds (Fin (1 / 2 ^ 60)) (Fin 1) True = Inr (Fin (1 / 2))
   \<and> grover_time_seconds (Fin (1 / 2 ^ 60)) (Fin 1) True = Inr (Fin (1 / 2))
   \<and> (0::real) < 1 / 2 ^ 60"
proof -
  define e :: real where "e = 1 / 2 ^ 60"
  have e: "0 \<le> e" "e \<le> 1 / 2 ^ 54" "e < 1024" "e \<le> 1023" "0 < e" by (simp_all add: e_def)
  define h where "h = fl_real (e / 2)"
  have h0: "0 \<le> h" unfolding h_def using e(1) by (intro fl_real_nonneg) simp
  have he: "h \<le> e" unfolding h_def using e(1) by (rule fl_real_half_le)
  have h: "h \<le> 1 / 2 ^ 54" "h \<le> 1023" using he e(2,4) by linarith+
  have a: "fl_real (2 powr e) = 1" using e(1,2) by (rule fl_real_pow2_tiny)
  have b: "fl_real (2 powr h) = 1" using h0 h(1) by (rule fl_real_pow2_tiny)
  have "classical_time_seconds (Fin e) (Fin 1) True = Inr (Fin (1 / 2))"
    using classical_Fin [of 1 e True] pow2_lt_threshold [OF e(4)] a crack_tail_one
    by (simp del: fdiv.simps)
  moreover have "grover_time_seconds (Fin e) (Fin 1) True = Inr (Fin (1 / 2))"
    using grover_Fin [of 1 e True] pow2_lt_threshold [OF h(2)] e(1,3) b crack_tail_one
    by (simp add: h_def del: fdiv.simps)
  ultimately show ?thesis using e(5) unfolding e_def by blast
qed

text \<open>
  C8, as amended. For equal finite entropy \<open>x \<ge> 0\<close>, equal throughput \<open>ops > 0\<close> and the
  same \<open>average\<close>: at entropy 0 the quantum and the classical crack time are equal;
  whenever the classical call returns a time, the quantum call returns one that is at
  most the classical time; and the quantum time is strictly less whenever the entropy
  is at least one bit, the throughput is finite and the classical time is finite.
\<close>

theorem quantum_vs_classical:
  assumes "0 \<le> x" and "flt (Fin 0) ops"
  shows "grover_time_seconds (Fin 0) ops avg = classical_time_seconds (Fin 0) ops avg
     \<and> (\<forall>c. classical_time_seconds (Fin x) ops avg = Inr c \<longrightarrow>
          (\<exists>q. grover_time_seconds (Fin x) ops avg = Inr q \<and> fle q c))
     \<and> (\<forall>r c. 1 \<le> x \<and> ops = Fin r \<and> r < 2 ^ 1024
            \<and> classical_time_seconds (Fin x) ops avg = Inr (Fin c) \<longrightarrow>
          (\<exists>q. grover_time_seconds (Fin x) ops avg = Inr (Fin q) \<and> q < c))"
proof (intro conjI allI impI)
  show "grover_time_seconds (Fin 0) ops avg = classical_time_seconds (Fin 0) ops avg"
    by (rule quantum_eq_classical_zero)
next
  fix c assume c: "classical_time_seconds (Fin x) ops avg = Inr c"
  show "\<exists>q. grover_time_seconds (Fin x) ops avg = Inr q \<and> fle q c"
  proof (cases ops)
    case (Fin r)
    with assms(2) have "0 < r" by simp
    from quantum_le_classical_fin [OF assms(1) this] c Fin show ?thesis by simp
  next
    case PInf
    with quantum_le_classical_inf [OF assms(1)] c show ?thesis by simp
  qed (use assms(2) in simp_all)
next
  fix r c
  assume a: "1 \<le> x \<and> ops = Fin r \<and> r < 2 ^ 1024
      \<and> classical_time_seconds (Fin x) ops avg = Inr (Fin c)"
  then have x1: "1 \<le> x" and o: "ops = Fin r" and rl: "r < 2 ^ 1024"
    and c: "classical_time_seconds (Fin x) ops avg = Inr (Fin c)" by blast+
  from assms(2) o have r0: "0 < r" by simp
  from quantum_lt_classical [OF x1 r0 rl c [unfolded o]]
  show "\<exists>q. grover_time_seconds (Fin x) ops avg = Inr (Fin q) \<and> q < c"
    unfolding o .
qed

theorem quantum_vs_classical_witness:
  "(0::real) \<le> 40 \<and> flt (Fin 0) (Fin 1000000000)
   \<and> grover_time_seconds (Fin 0) (Fin 1000000000) True
       = classical_time_seconds (Fin 0) (Fin 1000000000) True
   \<and> (\<exists>c q. classical_time_seconds (Fin 40) (Fin 1000000000) True = Inr (Fin c)
          \<and> grover_time_seconds (Fin 40) (Fin 1000000000) True = Inr (Fin q) \<and> q < c)"
proof -
  have x: "(0::real) \<le> 40" and o: "flt (Fin 0) (Fin 1000000000)" by simp_all
  have r: "(1000000000::real) < 2 ^ 1024" by simp
  from classical_finite [of 40 1000000000 True] obtain c where
    c: "classical_time_seconds (Fin 40) (Fin 1000000000) True = Inr (Fin c)" by auto
  from quantum_vs_classical [OF x o, of True] c r obtain q where
    "grover_time_seconds (Fin 40) (Fin 1000000000) True = Inr (Fin q)" and "q < c"
    by auto
  with c quantum_vs_classical [OF x o, of True] x o show ?thesis by blast
qed

section \<open>The safety percentage\<close>

text \<open>
  C4. \<open>time_to_percent_years\<close> is not total on the durations: on not-a-number both
  comparisons are false, the logarithm is not-a-number and \<^verbatim>\<open>int\<close> raises
  \<^verbatim>\<open>ValueError\<close>, where \<open>human_time\<close> tests for not-a-number first.
\<close>

theorem time_to_percent_years_nan: "time_to_percent_years NaN = Inl ValueError"
  by (simp add: time_to_percent_years_def pybind_def)

text \<open>
  On every other duration, negative ones included, \<open>time_to_percent_years\<close> returns a
  percentage from 0 to 100.
\<close>

lemma time_to_percent_years_total:
  assumes "seconds \<noteq> NaN"
  shows "\<exists>pct. time_to_percent_years seconds = Inr pct \<and> 0 \<le> pct \<and> pct \<le> 100"
proof (cases "fle seconds (Fin 1)")
  case True
  then show ?thesis by (simp add: time_to_percent_years_def)
next
  case False
  show ?thesis
  proof (cases seconds)
    case (Fin x)
    with False have x: "1 < x" by simp
    then have q: "0 \<le> x / 31536000" by simp
    show ?thesis
    proof (cases "fle (Fin 100) (fl (x / 31536000))")
      case True
      with Fin x show ?thesis by (simp add: time_to_percent_years_def)
    next
      case c: False
      with fl_nonneg [OF q] obtain y where y: "fl (x / 31536000) = Fin y" "0 \<le> y" "y < 100"
        by auto
      have y1: "1 \<le> y + 1" "y + 1 \<le> 2 ^ 7" using y(2,3) by simp_all
      define w where "w = fl_real (y + 1)"
      have w: "1 \<le> w" "w \<le> 2 ^ 7" unfolding w_def
        using y1 fl_real_ge_nat [of 0 "y + 1"] fl_real_le_nat [of "y + 1" 7] by simp_all
      have "y + 1 \<le> 2 ^ 1023" using y1(2) by (rule order_trans) simp
      then have fw: "fl (y + 1) = Fin w" unfolding w_def using y(2) by (intro fl_small) simp_all
      have l0: "0 \<le> log 10 w" using w(1) by simp
      have l1: "log 10 w \<le> 2 ^ 2" using w by (simp add: log_le_iff)
      define lg where "lg = fl_real (log 10 w)"
      have lg: "0 \<le> lg" "lg \<le> 2 ^ 2" unfolding lg_def
        using l0 l1 by (simp_all add: fl_real_nonneg fl_real_le_nat [of _ 2, simplified])
      have "log 10 w \<le> 2 ^ 1023" using l1 by (rule order_trans) simp
      then have fl: "fl (log 10 w) = Fin lg" unfolding lg_def using l0 by (intro fl_small)
      define h where "h = fl_real (lg / 2)"
      have h: "0 \<le> h" "h \<le> 2 ^ 1" unfolding h_def
        using lg fl_real_le_nat [of "lg / 2" 1] by (simp_all add: fl_real_nonneg)
      have "lg / 2 \<le> 2 ^ 1023"
      proof -
        have "lg / 2 \<le> 2 ^ 2" using lg by simp
        then show ?thesis by (rule order_trans) simp
      qed
      then have fh: "fl (lg / 2) = Fin h" unfolding h_def using lg(1) by (intro fl_small) simp_all
      define t where "t = fl_real (h * 100)"
      have "h * 100 \<le> 2 ^ 8" using h by simp
      then have t: "0 \<le> t" unfolding t_def using h(1) by (intro fl_real_nonneg) simp
      have "h * 100 \<le> 2 ^ 1023"
      proof -
        have "h * 100 \<le> 2 ^ 8" using h by simp
        then show ?thesis by (rule order_trans) simp
      qed
      then have ft: "fl (h * 100) = Fin t" unfolding t_def using h(1) by (intro fl_small) simp_all
      have "time_to_percent_years seconds = Inr (max 0 (min 100 \<lfloor>t\<rfloor>))"
        using Fin x c y(1) fw fl fh ft w(1) t
        by (simp add: time_to_percent_years_def)
      then show ?thesis by simp
    qed
  next
    case PInf
    then show ?thesis by (simp add: time_to_percent_years_def)
  next
    case NInf
    with False show ?thesis by simp
  next
    case NaN
    with assms show ?thesis by simp
  qed
qed

section \<open>The empty password\<close>

text \<open>
  C5 as stated fails: the entropy of the empty password is \<open>0.0\<close>, and at one operation
  per second both average crack times are \<open>2 ** 0.0 / 1 / 2\<close>, half a second, not zero.
\<close>

theorem empty_password_times_cex:
  "estimate_entropy latin1_db [] = Inr (Fin 0)
   \<and> classical_time_seconds (Fin 0) (Fin 1) True = Inr (Fin (1 / 2))
   \<and> grover_time_seconds (Fin 0) (Fin 1) True = Inr (Fin (1 / 2))
   \<and> Fin (1 / 2) \<noteq> Fin 0"
  by (simp add: estimate_entropy_def char_pool_def classical_time_seconds_def
      grover_time_seconds_def pybind_def fl_0 fl_1 fl_half)

text \<open>
  C5, as amended. The entropy of the empty password is exactly \<open>0.0\<close>. With a finite
  throughput \<open>r\<close> of at least one operation in two seconds, both average crack times are
  the same float \<open>t\<close>, the rounded half of the rounded \<open>1 / r\<close>: positive, not zero, and at
  most one second, so that both safety percentages are 0.
\<close>

theorem empty_password_pipeline:
  assumes "1 / 2 \<le> r" and "r < 2 ^ 1024"
  shows "estimate_entropy db [] = Inr (Fin 0)
     \<and> (\<exists>t. t = fl_real (fl_real (1 / r) / 2) \<and> 0 < t \<and> t \<le> 1
          \<and> classical_time_seconds (Fin 0) (Fin r) True = Inr (Fin t)
          \<and> grover_time_seconds (Fin 0) (Fin r) True = Inr (Fin t)
          \<and> time_to_percent_years (Fin t) = Inr 0)"
proof -
  define a where "a = fl_real (1 / r)"
  define t where "t = fl_real (a / 2)"
  have r: "0 < r" using assms(1) by linarith
  have inv_le: "1 / r \<le> 2 ^ 1" using assms(1) r by (simp add: divide_le_eq)
  have "(2::real) powr of_int (- 1024) = 1 / 2 ^ 1024"
    by (simp add: powr_minus_divide)
  also have "\<dots> \<le> 1 / r" using assms(2) r by (simp add: frac_le)
  finally have inv_ge: "2 powr of_int (- 1024) \<le> 1 / r" .
  have a_le: "a \<le> 2 ^ 1" unfolding a_def using inv_le r by (intro fl_real_le_nat) simp_all
  have a_ge: "2 powr of_int (- 1024) \<le> a" unfolding a_def using inv_ge
    by (rule fl_real_ge_pow2) simp
  have a_pos: "0 < a" using a_ge pow2_pos [of "of_int (- 1024)"] by linarith
  have fl_a: "fl (1 / r) = Fin a" unfolding a_def using inv_le r
    by (intro fl_small) simp_all
  have half_le: "a / 2 \<le> 2 ^ 0" using a_le by simp
  have "(2::real) powr of_int (- 1025) = 2 powr of_int (- 1024) / 2"
    by (simp add: powr_minus_divide)
  also have "\<dots> \<le> a / 2" using a_ge by simp
  finally have half_ge: "2 powr of_int (- 1025) \<le> a / 2" .
  have t_le: "t \<le> 1" unfolding t_def using fl_real_le_nat [of "a / 2" 0] half_le a_pos by simp
  have t_pos: "0 < t" unfolding t_def using half_ge by (rule fl_real_pos_pow2) simp
  have fl_t: "fl (a / 2) = Fin t" unfolding t_def using half_le a_pos
    by (intro fl_small) simp_all
  have c: "classical_time_seconds (Fin 0) (Fin r) True = Inr (Fin t)"
    using r fl_a fl_t by (simp add: classical_time_seconds_def)
  have g: "grover_time_seconds (Fin 0) (Fin r) True = Inr (Fin t)"
    using r fl_a fl_t by (simp add: grover_time_seconds_def fl_0)
  have p: "time_to_percent_years (Fin t) = Inr 0"
    using t_le by (simp add: time_to_percent_years_def)
  have e: "estimate_entropy db [] = Inr (Fin 0)"
    by (simp add: estimate_entropy_def char_pool_def)
  from e c g p t_le t_pos show ?thesis unfolding t_def a_def by blast
qed

theorem empty_password_pipeline_witness:
  "estimate_entropy latin1_db [] = Inr (Fin 0)
   \<and> (\<exists>t. t = fl_real (fl_real (1 / 1000000000) / 2) \<and> 0 < t \<and> t \<le> 1
        \<and> classical_time_seconds (Fin 0) (Fin 1000000000) True = Inr (Fin t)
        \<and> grover_time_seconds (Fin 0) (Fin 1000000000) True = Inr (Fin t)
        \<and> time_to_percent_years (Fin t) = Inr 0)"
proof -
  have "(1::real) / 2 \<le> 1000000000" and "(1000000000::real) < 2 ^ 1024" by simp_all
  then show ?thesis by (rule empty_password_pipeline)
qed

section \<open>The length sweep\<close>

lemma sweep_row_returns:
  assumes "1 \<le> pool" and "pool \<le> 94" and "0 \<le> l" and "l \<le> 32"
  shows "\<exists>lc lq. sweep_row pool c_ops q_ops l
           = Inr (l, fmul (fl (log 2 (of_int pool))) (Fin (of_int l)), lc, lq)"
proof -
  from assms(1,2) have m: "math_log2 pool = Inr (fl (log 2 (of_int pool)))"
    by (intro math_log2_small) simp_all
  from assms(3,4) have f: "float_of_int l = Inr (Fin (of_int l))"
    by (intro float_of_int_small) simp_all
  from assms(1,2) fl_log2_pool [of pool] obtain lg where
    lg: "fl (log 2 (of_int pool)) = Fin lg" "0 \<le> lg" "lg \<le> 2 ^ 3" by auto
  define x where "x = lg * of_int l"
  have "(of_int l :: real) \<le> 2 ^ 5" "(0::real) \<le> of_int l" using assms(3,4) by simp_all
  with lg(2,3) have "lg * of_int l \<le> 2 ^ 3 * 2 ^ 5" by (intro mult_mono) simp_all
  then have x: "0 \<le> x" "x \<le> 2 ^ 8" using lg(2) assms(3) by (simp_all add: x_def)
  define ev where "ev = fl_real x"
  have ev: "0 \<le> ev" "ev \<le> 2 ^ 8" unfolding ev_def
    using x(1) fl_real_le_nat [OF x] by (simp_all add: fl_real_nonneg)
  have "x \<le> 2 ^ 1023" using x(2) by (rule order_trans) simp
  then have e: "fmul (fl (log 2 (of_int pool))) (Fin (of_int l)) = Fin ev"
    using x(1) by (simp add: lg(1) x_def [symmetric] ev_def fl_small)
  have "ev \<le> 1023" using ev(2) by simp
  from classical_returns [OF this, of c_ops True]
  obtain c_t where c: "classical_time_seconds (Fin ev) c_ops True = Inr c_t" ..
  have "ev \<le> 2 ^ 10" using ev(2) by simp
  from grover_returns [OF ev(1) this, of q_ops True]
  obtain q_t where q: "grover_time_seconds (Fin ev) q_ops True = Inr q_t" ..
  from log10_succ_returns [OF classical_nonneg [OF c]]
  obtain lc where lc: "math_log10 (fadd c_t (Fin 1)) = Inr lc" ..
  from log10_succ_returns [OF grover_nonneg [OF q]]
  obtain lq where lq: "math_log10 (fadd q_t (Fin 1)) = Inr lq" ..
  have "sweep_row pool c_ops q_ops l = Inr (l, Fin ev, lc, lq)"
    using m f c q lc lq by (simp add: sweep_row_def e Let_def)
  then show ?thesis by (simp add: e)
qed

lemma sweep_loop_returns:
  assumes "1 \<le> pool" and "pool \<le> 94" and "\<forall>l\<in>set ls. 0 \<le> l \<and> l \<le> 32"
  shows "\<exists>rows. sweep_loop pool c_ops q_ops ls data = Inr (data @ rows)
          \<and> map fst rows = ls
          \<and> map (fst \<circ> snd) rows = map (\<lambda>l. fmul (fl (log 2 (of_int pool))) (Fin (of_int l))) ls"
  using assms(3)
proof (induction ls arbitrary: data)
  case Nil
  then show ?case by simp
next
  case (Cons l ls)
  then have "0 \<le> l" "l \<le> 32" by simp_all
  from sweep_row_returns [OF assms(1,2) this, of c_ops q_ops]
  obtain lc lq where r: "sweep_row pool c_ops q_ops l
      = Inr (l, fmul (fl (log 2 (of_int pool))) (Fin (of_int l)), lc, lq)" by blast
  define row where "row = (l, fmul (fl (log 2 (of_int pool))) (Fin (of_int l)), lc, lq)"
  from Cons.prems have "\<forall>l\<in>set ls. 0 \<le> l \<and> l \<le> 32" by simp
  from Cons.IH [OF this, of "data @ [row]"] obtain rows where
    rows: "sweep_loop pool c_ops q_ops ls (data @ [row]) = Inr ((data @ [row]) @ rows)"
      "map fst rows = ls"
      "map (fst \<circ> snd) rows = map (\<lambda>l. fmul (fl (log 2 (of_int pool))) (Fin (of_int l))) ls"
    by blast
  have "sweep_loop pool c_ops q_ops (l # ls) data = Inr (data @ (row # rows))"
    using r rows(1) by (simp add: row_def)
  moreover have "map fst (row # rows) = l # ls" using rows(2) by (simp add: row_def)
  moreover have "map (fst \<circ> snd) (row # rows)
      = map (\<lambda>l. fmul (fl (log 2 (of_int pool))) (Fin (of_int l))) (l # ls)"
    using rows(3) by (simp add: row_def)
  ultimately show ?case by (intro exI [of _ "row # rows"] conjI)
qed

lemma lengths_range: "\<forall>l\<in>set lengths. 0 \<le> l \<and> l \<le> 32"
  by (auto simp: lengths_def)

text \<open>
  C10. When the pool of the analyzed password is 0 (a password of spaces, say), the sweep
  takes 26, the lowercase pool, instead, so that \<open>math.log2\<close> is applied to 26 and never to
  0. Whatever the two throughputs are, no row raises: the sweep returns the 29 rows of
  the lengths 4 to 32, the entropy of a row is \<open>log2(26) * length\<close>, and the rows are
  those of any password whose pool is 26, the lowercase projection.
\<close>

theorem sweep_zero_pool:
  assumes "char_pool db password = 0"
  shows "sweep_pool db password = 26
     \<and> (\<exists>rows. sweep db password c_ops q_ops = Inr rows
          \<and> length rows = 29
          \<and> map fst rows = map int [4..<33]
          \<and> map (fst \<circ> snd) rows
              = map (\<lambda>l. fmul (fl (log 2 26)) (Fin (of_int l))) (map int [4..<33]))
     \<and> (\<forall>q. char_pool db q = 26 \<longrightarrow>
          sweep db q c_ops q_ops = sweep db password c_ops q_ops)"
proof -
  have p: "sweep_pool db password = 26" using assms by (simp add: sweep_pool_def)
  have "(1::int) \<le> 26" "(26::int) \<le> 94" by simp_all
  from sweep_loop_returns [OF this lengths_range, of c_ops q_ops "[]"]
  obtain rows where rows: "sweep_loop 26 c_ops q_ops lengths [] = Inr rows"
    "map fst rows = lengths"
    "map (fst \<circ> snd) rows = map (\<lambda>l. fmul (fl (log 2 26)) (Fin (of_int l))) lengths"
    by auto
  from rows(2) have "length rows = length lengths" by (metis length_map)
  then have "length rows = 29" by (simp add: lengths_def)
  moreover have "sweep db password c_ops q_ops = Inr rows"
    using rows(1) p by (simp add: sweep_def)
  moreover have "sweep db q c_ops q_ops = sweep db password c_ops q_ops"
    if "char_pool db q = 26" for q
    using that p by (simp add: sweep_def sweep_pool_def)
  ultimately show ?thesis using p rows(2,3) unfolding lengths_def by blast
qed

theorem sweep_zero_pool_witness:
  "char_pool latin1_db (ascii ''  '') = 0
   \<and> sweep_pool latin1_db (ascii ''  '') = 26
   \<and> (\<exists>rows. sweep latin1_db (ascii ''  '') (Fin 1000000000) (Fin 1000000) = Inr rows
        \<and> length rows = 29
        \<and> map fst rows = map int [4..<33])
   \<and> sweep latin1_db (ascii ''a'') (Fin 1000000000) (Fin 1000000)
       = sweep latin1_db (ascii ''  '') (Fin 1000000000) (Fin 1000000)"
proof -
  have z: "char_pool latin1_db (ascii ''  '') = 0"
    by (simp add: char_pool_def ascii_def islower_def isupper_def isdigit_def punctuation_def)
  have a: "char_pool latin1_db (ascii ''a'') = 26"
    by (simp add: char_pool_def ascii_def islower_def isupper_def isdigit_def punctuation_def)
  from sweep_zero_pool [OF z, of "Fin 1000000000" "Fin 1000000"] z a show ?thesis
    by blast
qed

end
